theory Spec2Isabelle
  imports Complex_Main "HOL-Library.Word"
begin

section \<open>Floating-point values\<close>

text \<open>
  The firmware computes in IEEE 754 binary32 (\<open>float\<close>) and, where a \<open>double\<close> literal or
  array takes part, in binary64.  A value of either format is a \<open>cfloat\<close>: a finite real, one
  of the two infinities, or NaN.  The sign of zero is not represented: a zero counts as
  \<open>+0\<close> where the sign of a quotient by zero depends on it.
\<close>

datatype cfloat = Fin real | PInf | NInf | NaN

fun isfinite :: "cfloat \<Rightarrow> bool" where
  "isfinite (Fin v) = True"
| "isfinite PInf = False"
| "isfinite NInf = False"
| "isfinite NaN = False"

text \<open>The comparison \<open>a < b\<close> of IEEE 754: false as soon as one side is NaN.\<close>

fun fl_less :: "cfloat \<Rightarrow> cfloat \<Rightarrow> bool" where
  "fl_less NaN b = False"
| "fl_less a NaN = False"
| "fl_less (Fin a) (Fin b) = (a < b)"
| "fl_less (Fin a) PInf = True"
| "fl_less (Fin a) NInf = False"
| "fl_less NInf NInf = False"
| "fl_less NInf b = True"
| "fl_less PInf b = False"

text \<open>
  Rounding to nearest, ties to even (the default rounding mode, which the firmware never
  changes).  \<open>round_even\<close> rounds a real to an integer; \<open>binade r\<close> is the exponent \<open>e\<close> with
  \<open>2^e \<le> |r| < 2^(e+1)\<close>, found by halving or doubling \<open>|r|\<close>.  \<open>rnd p emin emax\<close> rounds a
  real to the format with \<open>p\<close> bits of significand and exponents from \<open>emin\<close> to \<open>emax\<close>:
  the spacing of the format around \<open>r\<close> is \<open>2^(max emin e - (p - 1))\<close> (which covers the
  subnormal numbers), and a result of magnitude \<open>2^(emax+1)\<close> or more is the infinity of
  the sign of \<open>r\<close>.
\<close>

definition round_even :: "real \<Rightarrow> int" where
  "round_even x =
     (let f = \<lfloor>x\<rfloor>; d = x - of_int f
      in if d < 1 / 2 then f else if 1 / 2 < d then f + 1 else if even f then f else f + 1)"

function binade_up :: "real \<Rightarrow> int \<Rightarrow> int" where
  "binade_up r e = (if r < 2 then e else binade_up (r / 2) (e + 1))"
  by pat_completeness auto
termination
proof (relation "measure (\<lambda>(r, e). nat \<lceil>r\<rceil>)")
  show "wf (measure (\<lambda>(r, e). nat \<lceil>r\<rceil>))" by simp
next
  fix r :: real and e :: int
  assume "\<not> r < 2"
  then have r: "2 \<le> r" by simp
  then have "r / 2 \<le> r - 1" by simp
  then have "\<lceil>r / 2\<rceil> \<le> \<lceil>r - 1\<rceil>" by (rule ceiling_mono)
  then have "\<lceil>r / 2\<rceil> < \<lceil>r\<rceil>" by simp
  moreover have "0 < \<lceil>r\<rceil>" using r by linarith
  ultimately show "((r / 2, e + 1), (r, e)) \<in> measure (\<lambda>(r, e). nat \<lceil>r\<rceil>)" by simp
qed

function binade_down :: "real \<Rightarrow> int \<Rightarrow> int" where
  "binade_down r e = (if r \<le> 0 \<or> 1 \<le> r then e else binade_down (2 * r) (e - 1))"
  by pat_completeness auto
termination
proof (relation "measure (\<lambda>(r, e). nat \<lceil>1 / r\<rceil>)")
  show "wf (measure (\<lambda>(r, e). nat \<lceil>1 / r\<rceil>))" by simp
next
  fix r :: real and e :: int
  assume "\<not> (r \<le> 0 \<or> 1 \<le> r)"
  then have r: "0 < r" "r < 1" by simp_all
  define t where "t = 1 / r"
  have t: "1 < t" using r by (simp add: t_def)
  have h: "1 / (2 * r) = t / 2" by (simp add: t_def)
  have "\<lceil>t / 2\<rceil> < \<lceil>t\<rceil>"
  proof (cases "t \<le> 2")
    case True
    then have "t / 2 \<le> of_int 1" by simp
    then have "\<lceil>t / 2\<rceil> \<le> 1" by (rule ceiling_le)
    moreover have "1 < \<lceil>t\<rceil>" using t by (simp add: less_ceiling_iff)
    ultimately show ?thesis by linarith
  next
    case False
    then have "t / 2 \<le> t - 1" by simp
    then have "\<lceil>t / 2\<rceil> \<le> \<lceil>t - 1\<rceil>" by (rule ceiling_mono)
    then show ?thesis by simp
  qed
  then have "\<lceil>1 / (2 * r)\<rceil> < \<lceil>1 / r\<rceil>" unfolding h unfolding t_def .
  moreover have "0 < \<lceil>1 / r\<rceil>" using t unfolding t_def by linarith
  ultimately have "nat \<lceil>1 / (2 * r)\<rceil> < nat \<lceil>1 / r\<rceil>" by linarith
  then show "((2 * r, e - 1), (r, e)) \<in> measure (\<lambda>(r, e). nat \<lceil>1 / r\<rceil>)"
    by (simp only: in_measure split_conv)
qed

definition binade :: "real \<Rightarrow> int" where
  "binade r = (if 1 \<le> \<bar>r\<bar> then binade_up \<bar>r\<bar> 0 else binade_down \<bar>r\<bar> 0)"

definition rnd :: "nat \<Rightarrow> int \<Rightarrow> int \<Rightarrow> real \<Rightarrow> cfloat" where
  "rnd p emin emax r =
     (if r = 0 then Fin 0
      else (let u = 2 powi (max emin (binade r) - (int p - 1));
                q = of_int (round_even (r / u)) * u
            in if 2 powi (emax + 1) \<le> \<bar>q\<bar> then (if 0 < r then PInf else NInf) else Fin q))"

definition rnd32 :: "real \<Rightarrow> cfloat" where
  "rnd32 = rnd 24 (- 126) 127"

definition rnd64 :: "real \<Rightarrow> cfloat" where
  "rnd64 = rnd 53 (- 1022) 1023"

text \<open>
  The operations of IEEE 754, each rounded once by the rounding \<open>rd\<close> of the format the
  source computes it in (no fused multiply-add is assumed).
\<close>

fun fneg :: "cfloat \<Rightarrow> cfloat" where
  "fneg (Fin a) = Fin (- a)"
| "fneg PInf = NInf"
| "fneg NInf = PInf"
| "fneg NaN = NaN"

fun fabs :: "cfloat \<Rightarrow> cfloat" where
  "fabs (Fin a) = Fin \<bar>a\<bar>"
| "fabs PInf = PInf"
| "fabs NInf = PInf"
| "fabs NaN = NaN"

fun fadd :: "(real \<Rightarrow> cfloat) \<Rightarrow> cfloat \<Rightarrow> cfloat \<Rightarrow> cfloat" where
  "fadd rd (Fin a) (Fin b) = rd (a + b)"
| "fadd rd NaN b = NaN"
| "fadd rd a NaN = NaN"
| "fadd rd PInf NInf = NaN"
| "fadd rd NInf PInf = NaN"
| "fadd rd PInf b = PInf"
| "fadd rd NInf b = NInf"
| "fadd rd (Fin a) b = b"

definition fsub :: "(real \<Rightarrow> cfloat) \<Rightarrow> cfloat \<Rightarrow> cfloat \<Rightarrow> cfloat" where
  "fsub rd a b = fadd rd a (fneg b)"

fun fmul :: "(real \<Rightarrow> cfloat) \<Rightarrow> cfloat \<Rightarrow> cfloat \<Rightarrow> cfloat" where
  "fmul rd (Fin a) (Fin b) = rd (a * b)"
| "fmul rd NaN b = NaN"
| "fmul rd a NaN = NaN"
| "fmul rd (Fin a) b = (if a = 0 then NaN else if 0 < a then b else fneg b)"
| "fmul rd a (Fin b) = (if b = 0 then NaN else if 0 < b then a else fneg a)"
| "fmul rd a b = (if a = b then PInf else NInf)"

fun fdiv :: "(real \<Rightarrow> cfloat) \<Rightarrow> cfloat \<Rightarrow> cfloat \<Rightarrow> cfloat" where
  "fdiv rd (Fin a) (Fin b) =
     (if b = 0 then (if a = 0 then NaN else if 0 < a then PInf else NInf) else rd (a / b))"
| "fdiv rd NaN b = NaN"
| "fdiv rd a NaN = NaN"
| "fdiv rd (Fin a) b = Fin 0"
| "fdiv rd a (Fin b) = (if 0 \<le> b then a else fneg a)"
| "fdiv rd a b = NaN"

text \<open>
  The conversion of a \<open>double\<close> to \<open>float\<close> (an assignment to a \<open>float\<close> variable), the
  minimum \<open>std::min(a, b)\<close> (\<open>b < a ? b : a\<close>), the library functions \<open>exp\<close> and \<open>sqrt\<close> on a
  \<open>float\<close>, taken as correctly rounded, and the real value of a finite \<open>cfloat\<close>.
\<close>

fun narrow :: "cfloat \<Rightarrow> cfloat" where
  "narrow (Fin v) = rnd32 v"
| "narrow x = x"

definition fmin :: "cfloat \<Rightarrow> cfloat \<Rightarrow> cfloat" where
  "fmin a b = (if fl_less b a then b else a)"

fun expf :: "cfloat \<Rightarrow> cfloat" where
  "expf (Fin x) = rnd32 (exp x)"
| "expf PInf = PInf"
| "expf NInf = Fin 0"
| "expf NaN = NaN"

fun sqrtf :: "cfloat \<Rightarrow> cfloat" where
  "sqrtf (Fin x) = (if x < 0 then NaN else rnd32 (sqrt x))"
| "sqrtf PInf = PInf"
| "sqrtf NInf = NaN"
| "sqrtf NaN = NaN"

fun val :: "cfloat \<Rightarrow> real" where
  "val (Fin v) = v"
| "val x = 0"

text \<open>A real number that binary32 represents: rounding leaves it as it is.\<close>

definition exact32 :: "real \<Rightarrow> bool" where
  "exact32 r = (rnd32 r = Fin r)"

section \<open>RunningStats (adaptive\_chatter.h)\<close>

text \<open>
  The class has the fields \<open>uint32_t n\<close>, \<open>float mean\<close>, \<open>float M2\<close>, \<open>float minVal\<close>
  and \<open>float maxVal\<close>.  The counter is a 32-bit word, so \<open>n++\<close> wraps.
\<close>

record RunningStats =
  rs_n :: "32 word"
  rs_mean :: cfloat
  rs_M2 :: cfloat
  rs_minVal :: cfloat
  rs_maxVal :: cfloat

definition clear :: RunningStats where
  "clear = \<lparr>rs_n = 0, rs_mean = Fin 0, rs_M2 = Fin 0, rs_minVal = PInf, rs_maxVal = NInf\<rparr>"

text \<open>The conversion of the counter to \<open>float\<close> in \<open>delta / n\<close> and \<open>M2 / (n - 1)\<close>.\<close>

definition u32_to_float :: "32 word \<Rightarrow> cfloat" where
  "u32_to_float n = rnd32 (real (unat n))"

text \<open>
  \<open>push\<close>: the first statement returns when \<open>x\<close> is not finite.  Every operation is a
  binary32 operation: it rounds, and it overflows to an infinity.
\<close>

fun push :: "cfloat \<Rightarrow> RunningStats \<Rightarrow> RunningStats" where
  "push (Fin x) s =
     (let n' = rs_n s + 1;
          delta = fsub rnd32 (Fin x) (rs_mean s);
          mean' = fadd rnd32 (rs_mean s) (fdiv rnd32 delta (u32_to_float n'));
          delta2 = fsub rnd32 (Fin x) mean';
          M2' = fadd rnd32 (rs_M2 s) (fmul rnd32 delta delta2)
      in \<lparr>rs_n = n', rs_mean = mean', rs_M2 = M2',
          rs_minVal = (if fl_less (Fin x) (rs_minVal s) then Fin x else rs_minVal s),
          rs_maxVal = (if fl_less (rs_maxVal s) (Fin x) then Fin x else rs_maxVal s)\<rparr>)"
| "push x s = s"

definition getMean :: "RunningStats \<Rightarrow> cfloat" where
  "getMean s = (if rs_n s > 0 then rs_mean s else Fin 0)"

definition getVariance :: "RunningStats \<Rightarrow> cfloat" where
  "getVariance s =
     (if rs_n s > 1 then fdiv rnd32 (rs_M2 s) (u32_to_float (rs_n s - 1)) else Fin 0)"

definition getStdDev :: "RunningStats \<Rightarrow> cfloat" where
  "getStdDev s =
     (let v = getVariance s in if isfinite v \<and> fl_less (Fin 0) v then sqrtf v else Fin 0)"

definition getCount :: "RunningStats \<Rightarrow> 32 word" where
  "getCount s = rs_n s"

text \<open>Pushing a sequence of samples into a cleared accumulator, in order.\<close>

definition pushAll :: "cfloat list \<Rightarrow> RunningStats" where
  "pushAll xs = foldl (\<lambda>s x. push x s) clear xs"










section \<open>ChatterMemory (adaptive\_chatter.h)\<close>

text \<open>
  \<open>(int)x\<close> on a floating-point value truncates toward zero.  (Beyond the range of
  \<open>int\<close> the conversion is undefined in C++; every use below is followed by a range
  check that such a value fails.)
\<close>

definition c_int_cast :: "real \<Rightarrow> int" where
  "c_int_cast r = (if 0 \<le> r then \<lfloor>r\<rfloor> else \<lceil>r\<rceil>)"

record ChatterEvent =
  frequency :: real
  spindleRPM :: real
  feedRate :: real
  severity :: real
  feedReduction :: real
  resolved :: bool
  timestamp :: "32 word"

text \<open>
  The \<open>Preferences\<close> object is the external key/value store.  It is a map from key
  strings to what was stored under them: the histogram array, one event record, or an
  integer.  \<open>putBytes\<close>/\<open>putInt\<close> overwrite a key; \<open>getBytes\<close> reports the stored
  length, which \<open>loadFromFlash\<close> compares with \<open>sizeof(ChatterEvent)\<close>, so only a stored
  event record is accepted as an event.
\<close>

datatype blob = HistBlob "16 word list" | EventBlob ChatterEvent | IntVal int

type_synonym Preferences = "string \<rightharpoonup> blob"

record ChatterMemory =
  prefs :: Preferences
  events :: "ChatterEvent list"
  chatterFreqHistogram :: "16 word list"

definition MAX_EVENTS :: nat where
  "MAX_EVENTS = 50"

text \<open>\<open>String(i)\<close>: the decimal digits of a non-negative integer.\<close>

definition digit_char :: "nat \<Rightarrow> char" where
  "digit_char d = char_of (48 + d)"

fun String :: "nat \<Rightarrow> string" where
  "String i = (if i < 10 then [digit_char i] else String (i div 10) @ [digit_char (i mod 10)])"

definition evt_key :: "nat \<Rightarrow> string" where
  "evt_key i = ''evt'' @ String i"

text \<open>
  \<open>saveToFlash\<close>: the histogram, the event count, and the last ten events, the most recent
  under \<open>evt0\<close>.  The loop variable runs over \<open>0 \<le> i < min(10, events.size())\<close>.
\<close>

definition save_event :: "ChatterEvent list \<Rightarrow> Preferences \<Rightarrow> nat \<Rightarrow> Preferences" where
  "save_event evs p i = p(evt_key i \<mapsto> EventBlob (evs ! (length evs - 1 - i)))"

definition saveToFlash :: "ChatterMemory \<Rightarrow> ChatterMemory" where
  "saveToFlash m =
     (let p1 = (prefs m)(''histogram'' \<mapsto> HistBlob (chatterFreqHistogram m));
          p2 = p1(''eventCount'' \<mapsto> IntVal (int (length (events m))));
          p3 = foldl (save_event (events m)) p2 [0 ..< min 10 (length (events m))]
      in m\<lparr>prefs := p3\<rparr>)"

text \<open>
  \<open>loadFromFlash\<close>.  \<open>getBytes("histogram", ...)\<close> copies the stored bytes over the start
  of the array when they fit and leaves the array alone otherwise; \<open>getInt\<close> has the
  default 0.  The loop \<open>for (i = min(9, count - 1); i >= 0; i--)\<close> appends each event
  record found.
\<close>

definition get_histogram :: "Preferences \<Rightarrow> 16 word list \<Rightarrow> 16 word list" where
  "get_histogram p h =
     (case p ''histogram'' of
        Some (HistBlob h') \<Rightarrow> (if length h' \<le> length h then h' @ drop (length h') h else h)
      | _ \<Rightarrow> h)"

definition getInt :: "Preferences \<Rightarrow> string \<Rightarrow> int \<Rightarrow> int" where
  "getInt p k dflt = (case p k of Some (IntVal c) \<Rightarrow> c | _ \<Rightarrow> dflt)"

function load_loop :: "Preferences \<Rightarrow> int \<Rightarrow> ChatterEvent list \<Rightarrow> ChatterEvent list" where
  "load_loop p i evs =
     (if 0 \<le> i
      then load_loop p (i - 1)
             (case p (evt_key (nat i)) of Some (EventBlob e) \<Rightarrow> evs @ [e] | _ \<Rightarrow> evs)
      else evs)"
  by pat_completeness auto
termination
  by (relation "measure (\<lambda>(p, i, evs). nat (i + 1))") auto

definition loadFromFlash :: "ChatterMemory \<Rightarrow> ChatterMemory" where
  "loadFromFlash m =
     (let h = get_histogram (prefs m) (chatterFreqHistogram m);
          count = getInt (prefs m) ''eventCount'' 0
      in m\<lparr>chatterFreqHistogram := h, events := load_loop (prefs m) (min 9 (count - 1)) []\<rparr>)"

text \<open>\<open>recordEvent\<close>: append, drop the first element when more than 50 are held, count the
  frequency in its 100 Hz bin when the bin index is in range, and save.\<close>

definition bump_bin :: "16 word list \<Rightarrow> int \<Rightarrow> 16 word \<Rightarrow> 16 word list" where
  "bump_bin h b k = (if 0 \<le> b \<and> b < 100 then h[nat b := h ! nat b + k] else h)"

definition recordEvent :: "ChatterEvent \<Rightarrow> ChatterMemory \<Rightarrow> ChatterMemory" where
  "recordEvent event m =
     (let evs = events m @ [event];
          evs' = (if length evs > MAX_EVENTS then tl evs else evs);
          freqBin = c_int_cast (frequency event / 100)
      in saveToFlash (m\<lparr>events := evs',
                         chatterFreqHistogram := bump_bin (chatterFreqHistogram m) freqBin 1\<rparr>))"

text \<open>\<open>learnSuccess\<close> and \<open>markResolved\<close>.\<close>

definition learnSuccess :: "ChatterEvent \<Rightarrow> ChatterMemory \<Rightarrow> ChatterMemory" where
  "learnSuccess e m =
     m\<lparr>chatterFreqHistogram := bump_bin (chatterFreqHistogram m) (c_int_cast (frequency e / 100)) 2\<rparr>"

definition markResolved :: "real \<Rightarrow> ChatterMemory \<Rightarrow> ChatterMemory" where
  "markResolved fr m =
     (if events m \<noteq> []
      then (let e = (last (events m))\<lparr>resolved := True, feedReduction := fr\<rparr>;
                m1 = m\<lparr>events := butlast (events m) @ [e]\<rparr>
            in saveToFlash (learnSuccess e m1))
      else m)"

text \<open>
  \<open>predictFeedReduction\<close>: one pass over the events accumulating \<open>totalWeight\<close> and
  \<open>weightedReduction\<close>, unresolved events skipped; the average is returned when
  \<open>totalWeight > 0.1\<close>, the default 20 otherwise.  The locals are \<open>float\<close>: the differences
  are binary32 subtractions, their quotients by the \<open>double\<close> literals \<open>500.0\<close> and \<open>3000.0\<close>
  are binary64 divisions converted to \<open>float\<close> by the assignment, and the sums and products
  are binary32.  In \<open>totalWeight > 0.1\<close> the \<open>float\<close> is compared with the \<open>double\<close> literal
  \<open>0.1\<close>, the binary64 rounding of one tenth.  The arguments and the fields of the stored
  events are finite values.
\<close>

definition predict_step :: "real \<Rightarrow> real \<Rightarrow> cfloat \<times> cfloat \<Rightarrow> ChatterEvent \<Rightarrow> cfloat \<times> cfloat" where
  "predict_step freq rpm acc e =
     (if \<not> resolved e then acc
      else (let freqDiff = narrow (fdiv rnd64 (fabs (fsub rnd32 (Fin (frequency e)) (Fin freq))) (Fin 500));
                rpmDiff = narrow (fdiv rnd64 (fabs (fsub rnd32 (Fin (spindleRPM e)) (Fin rpm))) (Fin 3000));
                weight = expf (fneg (fadd rnd32 freqDiff rpmDiff))
            in (fadd rnd32 (fst acc) weight,
                fadd rnd32 (snd acc) (fmul rnd32 weight (Fin (feedReduction e))))))"

definition predictFeedReduction :: "real \<Rightarrow> real \<Rightarrow> ChatterMemory \<Rightarrow> cfloat" where
  "predictFeedReduction freq rpm m =
     (let acc = foldl (predict_step freq rpm) (Fin 0, Fin 0) (events m);
          totalWeight = fst acc;
          weightedReduction = snd acc
      in if fl_less (rnd64 (1 / 10)) totalWeight then fdiv rnd32 weightedReduction totalWeight
         else Fin 20)"

definition getEventCount :: "ChatterMemory \<Rightarrow> int" where
  "getEventCount m = int (length (events m))"

definition getResolvedCount :: "ChatterMemory \<Rightarrow> int" where
  "getResolvedCount m = int (length (filter resolved (events m)))"

text \<open>
  The weighted average of the specification, in the arithmetic of the code: the weights
  of the resolved events at a query point, their sum from the first event on, the sum of
  the weighted feed reductions, and the quotient of the two sums.
\<close>

definition similarity :: "real \<Rightarrow> real \<Rightarrow> ChatterEvent \<Rightarrow> cfloat" where
  "similarity freq rpm e =
     expf (fneg (fadd rnd32
       (narrow (fdiv rnd64 (fabs (fsub rnd32 (Fin (frequency e)) (Fin freq))) (Fin 500)))
       (narrow (fdiv rnd64 (fabs (fsub rnd32 (Fin (spindleRPM e)) (Fin rpm))) (Fin 3000)))))"

definition total_weight :: "real \<Rightarrow> real \<Rightarrow> ChatterEvent list \<Rightarrow> cfloat" where
  "total_weight freq rpm evs =
     foldl (fadd rnd32) (Fin 0) (map (similarity freq rpm) (filter resolved evs))"



text \<open>A sequence of \<open>recordEvent\<close> calls, and a \<open>ChatterMemory\<close> object as constructed
  after a restart, on the store a previous run left.\<close>

definition recordAll :: "ChatterMemory \<Rightarrow> ChatterEvent list \<Rightarrow> ChatterMemory" where
  "recordAll m es = foldl (\<lambda>m e. recordEvent e m) m es"

definition restart :: "ChatterMemory \<Rightarrow> ChatterMemory" where
  "restart m = \<lparr>prefs = prefs m, events = [], chatterFreqHistogram = replicate 100 0\<rparr>"

section \<open>AdaptiveChatterDetector: the state machine (adaptive\_chatter.h)\<close>

datatype State = CALIBRATING | MONITORING | WARNING | CHATTER | RECOVERING

text \<open>
  The fields of the detector that \<open>updateState\<close>, \<open>recordChatterEvent\<close> and
  \<open>confirmChatterResolved\<close> read or write.  \<open>lastChatterTime\<close> is an \<open>unsigned long\<close>
  (32 bits on this target), as is the value of \<open>millis()\<close>.
\<close>

record Detector =
  currentState :: State
  det_spindleRPM :: real
  det_feedRate :: real
  suggestedFeed :: cfloat
  interventionFeed :: real
  lastChatterTime :: "32 word"
  memory :: ChatterMemory

text \<open>\<open>recordChatterEvent\<close>; \<open>ts\<close> is the value \<open>millis()\<close> returns inside it.\<close>

definition recordChatterEvent :: "32 word \<Rightarrow> real \<Rightarrow> real \<Rightarrow> Detector \<Rightarrow> Detector" where
  "recordChatterEvent ts freq sev d =
     (let e = \<lparr>frequency = freq, spindleRPM = det_spindleRPM d, feedRate = det_feedRate d,
               severity = sev, feedReduction = 0, resolved = False, timestamp = ts\<rparr>
      in d\<lparr>memory := recordEvent e (memory d)\<rparr>)"

definition confirmChatterResolved :: "Detector \<Rightarrow> Detector" where
  "confirmChatterResolved d =
     (let reduction = 100 - interventionFeed d
      in d\<lparr>memory := markResolved reduction (memory d)\<rparr>)"

text \<open>The entry into \<open>CHATTER\<close> written out twice in the source, under \<open>MONITORING\<close> and
  under \<open>WARNING\<close>.\<close>

definition enter_chatter :: "32 word \<Rightarrow> 32 word \<Rightarrow> real \<Rightarrow> real \<Rightarrow> Detector \<Rightarrow> Detector" where
  "enter_chatter now ts score dominantFreq d =
     (let d1 = d\<lparr>currentState := CHATTER, lastChatterTime := now\<rparr>;
          d2 = recordChatterEvent ts dominantFreq score d1
      in d2\<lparr>suggestedFeed := predictFeedReduction dominantFreq (det_spindleRPM d2) (memory d2)\<rparr>)"

text \<open>
  \<open>updateState\<close>; \<open>now\<close> is the value of \<open>millis()\<close> read on entry, and \<open>now - lastChatterTime\<close>
  is a 32-bit unsigned difference.
\<close>

fun updateState :: "32 word \<Rightarrow> 32 word \<Rightarrow> real \<Rightarrow> real \<Rightarrow> Detector \<Rightarrow> Detector" where
  "updateState now ts score dominantFreq d =
     (case currentState d of
        MONITORING \<Rightarrow>
          (if score > 70 then enter_chatter now ts score dominantFreq d
           else if score > 40 then d\<lparr>currentState := WARNING\<rparr>
           else d)
      | WARNING \<Rightarrow>
          (if score > 70 then enter_chatter now ts score dominantFreq d
           else if score < 30 then d\<lparr>currentState := MONITORING\<rparr>
           else d)
      | CHATTER \<Rightarrow>
          (let d1 = d\<lparr>interventionFeed := det_feedRate d\<rparr>
           in if score < 40
              then (let d2 = d1\<lparr>currentState := RECOVERING\<rparr>
                    in if det_feedRate d2 < 95 then confirmChatterResolved d2 else d2)
              else d1)
      | RECOVERING \<Rightarrow>
          (if score > 60 then d\<lparr>currentState := CHATTER, lastChatterTime := now\<rparr>
           else if score < 25 \<and> now - lastChatterTime d > 5000
                then d\<lparr>currentState := MONITORING, suggestedFeed := Fin 100\<rparr>
           else d)
      | CALIBRATING \<Rightarrow> d)"

text \<open>
  Outside calibration, \<open>update\<close> clamps and smooths the raw score and ends with
  \<open>updateState(smoothedScore, dominantFreq)\<close>.
\<close>

definition smooth :: "real \<Rightarrow> real \<Rightarrow> real" where
  "smooth smoothedScore rawScore = smoothedScore * (7 / 10) + min 100 rawScore * (3 / 10)"

text \<open>
  A cycle is described by what reaches that call: the two clock readings, the smoothed
  score and the dominant frequency.  A run is a sequence of cycles.
\<close>

record Cycle =
  c_now :: "32 word"
  c_ts :: "32 word"
  c_score :: real
  c_freq :: real

definition cycle :: "Detector \<Rightarrow> Cycle \<Rightarrow> Detector" where
  "cycle d c = updateState (c_now c) (c_ts c) (c_score c) (c_freq c) d"

definition run :: "Detector \<Rightarrow> Cycle list \<Rightarrow> Detector" where
  "run d cs = foldl cycle d cs"

text \<open>The event that \<open>recordChatterEvent\<close> builds in a cycle.\<close>

definition chatter_event :: "Detector \<Rightarrow> Cycle \<Rightarrow> ChatterEvent" where
  "chatter_event d c =
     \<lparr>frequency = c_freq c, spindleRPM = det_spindleRPM d, feedRate = det_feedRate d,
      severity = c_score c, feedReduction = 0, resolved = False, timestamp = c_ts c\<rparr>"

section \<open>HarmonicDetector and the fusion of AdvancedDSP (advanced\_dsp.h)\<close>

text \<open>Integer division of C++ truncates toward zero.\<close>

definition c_div :: "int \<Rightarrow> int \<Rightarrow> int" where
  "c_div a b = (if (a < 0) = (b < 0) then \<bar>a\<bar> div \<bar>b\<bar> else - (\<bar>a\<bar> div \<bar>b\<bar>))"

text \<open>
  The magnitude spectrum is the list of the elements of the \<open>double\<close> array, finite values.
  The source reads \<open>magnitudes[i]\<close> at indices \<open>0 \<le> i < size/2\<close> only (for a positive bin
  width), inside the array when \<open>size\<close> is its length, as it is at the call in \<open>main.cpp\<close>.
\<close>

definition mag_at :: "real list \<Rightarrow> int \<Rightarrow> real" where
  "mag_at magnitudes i = magnitudes ! nat i"

text \<open>
  \<open>(int)\<close> applied to a \<open>float\<close> (for a value that is not finite the conversion is undefined
  in C++; it is 0 here).
\<close>

fun float_to_int :: "cfloat \<Rightarrow> int" where
  "float_to_int (Fin v) = c_int_cast v"
| "float_to_int x = 0"

text \<open>
  The search for the strongest bin: the body of the first loop, on \<open>(maxMag, maxBin)\<close>.
  \<open>maxMag\<close> is a \<open>float\<close>: the comparison \<open>magnitudes[i] > maxMag\<close> is between the \<open>double\<close>
  and the exact value of the \<open>float\<close>, and the assignment \<open>maxMag = magnitudes[i]\<close> rounds
  the \<open>double\<close> to binary32.
\<close>

definition peak_step :: "real list \<Rightarrow> cfloat \<times> int \<Rightarrow> int \<Rightarrow> cfloat \<times> int" where
  "peak_step magnitudes acc i =
     (if fl_less (fst acc) (Fin (mag_at magnitudes i)) then (rnd32 (mag_at magnitudes i), i)
      else acc)"

definition find_peak :: "real list \<Rightarrow> int \<Rightarrow> int \<Rightarrow> cfloat \<times> int" where
  "find_peak magnitudes minBin maxSearchBin =
     foldl (peak_step magnitudes) (Fin 0, 0) [minBin .. maxSearchBin - 1]"

text \<open>The inner loop: the largest magnitude within three bins of the expected harmonic,
  in the \<open>float\<close> \<open>localMax\<close>.\<close>

definition local_max :: "real list \<Rightarrow> int \<Rightarrow> int \<Rightarrow> cfloat" where
  "local_max magnitudes sz harmonicBin =
     foldl (\<lambda>localMax j. if fl_less localMax (Fin (mag_at magnitudes j))
                          then rnd32 (mag_at magnitudes j) else localMax)
       (Fin 0) [max 0 (harmonicBin - 3) .. min (c_div sz 2 - 1) (harmonicBin + 3)]"

text \<open>
  The loop over \<open>h = 2, 3, 4\<close>, left by \<open>break\<close> at the first harmonic beyond the
  spectrum; the accumulator is \<open>harmonicScore\<close>.  In \<open>localMax > maxMag * 0.2\<close> the product
  is binary64, with the \<open>double\<close> literal \<open>0.2\<close>; \<open>localMax / maxMag\<close> and the sum are
  binary32.
\<close>

fun harmonic_loop :: "real list \<Rightarrow> int \<Rightarrow> int \<Rightarrow> cfloat \<Rightarrow> int list \<Rightarrow> cfloat \<Rightarrow> cfloat" where
  "harmonic_loop magnitudes sz maxBin maxMag [] harmonicScore = harmonicScore"
| "harmonic_loop magnitudes sz maxBin maxMag (h # hs) harmonicScore =
     (let harmonicBin = maxBin * h
      in if harmonicBin \<ge> c_div sz 2 then harmonicScore
         else (let localMax = local_max magnitudes sz harmonicBin
               in harmonic_loop magnitudes sz maxBin maxMag hs
                    (if fl_less (fmul rnd64 maxMag (rnd64 (2 / 10))) localMax
                     then fadd rnd32 harmonicScore (fdiv rnd32 localMax maxMag)
                     else harmonicScore)))"

text \<open>
  \<open>HarmonicDetector::analyze\<close> returns the harmonic strength and, through the
  reference parameter, the fundamental: here a pair.  \<open>500 / binWidth\<close> and
  \<open>8000 / binWidth\<close> are binary32 divisions; in \<open>maxBin * binWidth\<close> the bin index is
  converted to \<open>float\<close>.
\<close>

definition HarmonicDetector_analyze :: "real list \<Rightarrow> int \<Rightarrow> real \<Rightarrow> cfloat \<times> cfloat" where
  "HarmonicDetector_analyze magnitudes sz binWidth =
     (let minBin = float_to_int (fdiv rnd32 (Fin 500) (Fin binWidth));
          maxSearchBin = min (c_div sz 2) (float_to_int (fdiv rnd32 (Fin 8000) (Fin binWidth)));
          pk = find_peak magnitudes minBin maxSearchBin;
          maxMag = fst pk;
          maxBin = snd pk
      in if fl_less maxMag (Fin 100) then (Fin 0, Fin 0)
         else (fmin (Fin 1)
                 (fdiv rnd32 (harmonic_loop magnitudes sz maxBin maxMag [2, 3, 4] (Fin 0)) (Fin 2)),
               fmul rnd32 (rnd32 (of_int maxBin)) (Fin binWidth)))"

text \<open>
  The result of \<open>AdvancedDSP::analyze\<close>.  The harmonic strength is a finite value between
  0 and 1 and is held as a real number, as are the scores that the fusion reads; the
  fundamental is copied into \<open>dominantFreq\<close> as the \<open>float\<close> it is.
\<close>

record AdvancedResult =
  chatterScore :: real
  confidence :: real
  dominantFreq :: cfloat
  harmonicStrength :: real
  stabilityLobeMatch :: real
  spectralNarrowness :: real
  freqStability :: real
  sensorAgreement :: real
  isEngaged :: bool
  isGrowing :: bool
  stallGuardScore :: real

text \<open>
  What the other seven analyzers report in a cycle, after \<open>analyze\<close> has fed them:
  \<open>scoreFrequency\<close> of the stability-lobe predictor (a function of the frequency it is
  asked about) and its tooth-passing frequency, the narrowness score, the frequency
  stability, the correlation and its confidence multiplier, the engaged and growing flags,
  the combined stall-guard score with the per-axis sample counts \<open>sgCount\<close>, and the
  crest-factor score.
\<close>

record Readings =
  rd_scoreFrequency :: "cfloat \<Rightarrow> real"
  rd_toothPassFreq :: real
  rd_narrowScore :: real
  rd_frequencyStability :: real
  rd_correlation :: real
  rd_confidenceMultiplier :: real
  rd_engaged :: bool
  rd_amplitudeGrowing :: bool
  rd_combinedScore :: real
  rd_sgCount :: "int \<times> int \<times> int"
  rd_crestChatterScore :: real

text \<open>\<open>StallGuardAnalyzer::hasData\<close>: some axis holds more than ten readings.\<close>

fun hasData :: "int \<times> int \<times> int \<Rightarrow> bool" where
  "hasData (c0, c1, c2) = (c0 > 10 \<or> c1 > 10 \<or> c2 > 10)"

text \<open>\<open>score += f * w; weights += w;\<close> on the pair \<open>(score, weights)\<close>.\<close>

definition add_feature :: "real \<times> real \<Rightarrow> real \<Rightarrow> real \<Rightarrow> real \<times> real" where
  "add_feature acc f w = (fst acc + f * w, snd acc + w)"

definition fusion :: "AdvancedResult \<Rightarrow> Readings \<Rightarrow> real \<times> real" where
  "fusion r rd =
     (let a1 = add_feature (0, 0) (harmonicStrength r) 30;
          a2 = add_feature a1 (spectralNarrowness r) 20;
          a3 = add_feature a2 (freqStability r) 15;
          a4 = (if rd_toothPassFreq rd > 10 then add_feature a3 (stabilityLobeMatch r) 20 else a3);
          a5 = (if hasData (rd_sgCount rd) then add_feature a4 (stallGuardScore r) 25 else a4)
      in add_feature a5 (rd_crestChatterScore rd) 10)"

definition analyze :: "real list \<Rightarrow> int \<Rightarrow> real \<Rightarrow> Readings \<Rightarrow> AdvancedResult" where
  "analyze fftMagnitudes fftSize binWidth rd =
     (let hd = HarmonicDetector_analyze fftMagnitudes fftSize binWidth;
          fundamental = snd hd;
          r = \<lparr>chatterScore = 0, confidence = 0, dominantFreq = fundamental,
               harmonicStrength = val (fst hd),
               stabilityLobeMatch = rd_scoreFrequency rd fundamental,
               spectralNarrowness = rd_narrowScore rd,
               freqStability = rd_frequencyStability rd,
               sensorAgreement = rd_correlation rd,
               isEngaged = rd_engaged rd,
               isGrowing = rd_amplitudeGrowing rd,
               stallGuardScore = rd_combinedScore rd\<rparr>;
          sw = fusion r rd;
          score = fst sw;
          weights = snd sw;
          r1 = r\<lparr>chatterScore := (if weights > 0 then (score / weights) * 100 else 0)\<rparr>;
          c1 = 50 + rd_confidenceMultiplier rd * 10;
          c2 = (if harmonicStrength r1 > 5 / 10 then c1 + 15 else c1);
          c3 = (if freqStability r1 > 7 / 10 then c2 + 10 else c2);
          c4 = (if isGrowing r1 \<and> chatterScore r1 > 50 then c3 + 10 else c3);
          c5 = (if hasData (rd_sgCount rd) then c4 + 10 else c4)
      in r1\<lparr>confidence := min 100 c5\<rparr>)"



section \<open>Concrete inputs\<close>

text \<open>Memories and detectors on which the statements below are instantiated.\<close>

definition mk_event :: "nat \<Rightarrow> ChatterEvent" where
  "mk_event i = \<lparr>frequency = 1500 + real i, spindleRPM = 12000, feedRate = 100, severity = 80,
                 feedReduction = 0, resolved = False, timestamp = of_nat i\<rparr>"

text \<open>An event at 12 kHz, above the range of the histogram.\<close>

definition high_event :: ChatterEvent where
  "high_event = \<lparr>frequency = 12000, spindleRPM = 12000, feedRate = 100, severity = 80,
                 feedReduction = 0, resolved = False, timestamp = 0\<rparr>"

definition empty_memory :: ChatterMemory where
  "empty_memory = \<lparr>prefs = Map.empty, events = [], chatterFreqHistogram = replicate 100 0\<rparr>"

definition memory12 :: ChatterMemory where
  "memory12 = empty_memory\<lparr>events := map mk_event [0 ..< 12]\<rparr>"



text \<open>A detector that entered \<open>CHATTER\<close> at time 1000, recorded the event and is now
  recovering; and the same detector in \<open>MONITORING\<close>.\<close>

definition recovering_detector :: Detector where
  "recovering_detector =
     \<lparr>currentState = RECOVERING, det_spindleRPM = 12000, det_feedRate = 80, suggestedFeed = Fin 20,
      interventionFeed = 80, lastChatterTime = 1000,
      memory = empty_memory\<lparr>events := [mk_event 0]\<rparr>\<rparr>"

definition monitoring_detector :: Detector where
  "monitoring_detector = recovering_detector\<lparr>currentState := MONITORING\<rparr>"

definition at_score :: "real \<Rightarrow> Cycle" where
  "at_score s = \<lparr>c_now = 9000, c_ts = 9000, c_score = s, c_freq = 1500\<rparr>"

text \<open>A spectrum of 1024 bins with magnitude 90 at every 40th bin (625 Hz and its
  multiples at a bin width of 15.625 Hz) and 0 elsewhere, and readings of the other
  analyzers.\<close>

definition faint_harmonics :: "real list" where
  "faint_harmonics = map (\<lambda>i. if i mod 40 = 0 then 90 else 0) [0 ..< 1024]"

text \<open>A spectrum of 1024 bins, every one below 100: \<open>100 - 2^-30\<close> at bin 64 (1000 Hz),
  50 at bin 128 (2000 Hz) and 0 elsewhere.\<close>

definition near_floor :: "real list" where
  "near_floor = map (\<lambda>i. if i = 64 then 100 - 1 / 2 ^ 30 else if i = 128 then 50 else 0) [0 ..< 1024]"

definition quiet_readings :: Readings where
  "quiet_readings = \<lparr>rd_scoreFrequency = (\<lambda>f. 5 / 10), rd_toothPassFreq = 0, rd_narrowScore = 1,
     rd_frequencyStability = 0, rd_correlation = 0, rd_confidenceMultiplier = 7 / 10,
     rd_engaged = False, rd_amplitudeGrowing = False, rd_combinedScore = 0,
     rd_sgCount = (0, 0, 0), rd_crestChatterScore = 1 / 10\<rparr>"

section \<open>Properties of the rounding\<close>

lemma round_even_of_int [simp]: "round_even (of_int k) = k"
  by (simp add: round_even_def)

lemma round_even_near:
  assumes "of_int k - 1 / 2 < x" and "x < of_int k + 1 / 2"
  shows "round_even x = k"
proof (cases "of_int k \<le> x")
  case True
  then have "\<lfloor>x\<rfloor> = k" using assms(2) by (intro floor_unique) simp_all
  then show ?thesis using assms(2) by (simp add: round_even_def)
next
  case False
  then have "\<lfloor>x\<rfloor> = k - 1" using assms(1) by (intro floor_unique) simp_all
  then show ?thesis using assms(1) by (simp add: round_even_def)
qed


lemma round_even_bounds: "x - 1 / 2 \<le> of_int (round_even x) \<and> of_int (round_even x) \<le> x + 1 / 2"
proof -
  have a: "of_int \<lfloor>x\<rfloor> \<le> x" and b: "x < of_int \<lfloor>x\<rfloor> + 1" by linarith+
  have "(round_even x = \<lfloor>x\<rfloor> \<and> x - of_int \<lfloor>x\<rfloor> \<le> 1 / 2)
      \<or> (round_even x = \<lfloor>x\<rfloor> + 1 \<and> 1 / 2 \<le> x - of_int \<lfloor>x\<rfloor>)"
  proof (cases "x - of_int \<lfloor>x\<rfloor> < 1 / 2")
    case True
    then show ?thesis by (simp add: round_even_def Let_def)
  next
    case False
    note nl = this
    show ?thesis
    proof (cases "1 / 2 < x - of_int \<lfloor>x\<rfloor>")
      case True
      then show ?thesis using nl by (simp add: round_even_def Let_def)
    next
      case False
      then have "x - of_int \<lfloor>x\<rfloor> = 1 / 2" using nl by simp
      then show ?thesis by (simp add: round_even_def Let_def)
    qed
  qed
  then consider "round_even x = \<lfloor>x\<rfloor>" "x - of_int \<lfloor>x\<rfloor> \<le> 1 / 2"
    | "round_even x = \<lfloor>x\<rfloor> + 1" "1 / 2 \<le> x - of_int \<lfloor>x\<rfloor>"
    by blast
  then show ?thesis
  proof cases
    case 1
    from 1(1) have "real_of_int (round_even x) = of_int \<lfloor>x\<rfloor>" by simp
    then show ?thesis using a 1(2) by linarith
  next
    case 2
    from 2(1) have "real_of_int (round_even x) = of_int \<lfloor>x\<rfloor> + 1" by simp
    then show ?thesis using b 2(2) by linarith
  qed
qed

lemma round_even_le_int:
  assumes "x \<le> of_int k"
  shows "round_even x \<le> k"
proof -
  have "of_int (round_even x) \<le> x + 1 / 2" using round_even_bounds by blast
  then have a: "(of_int (round_even x) :: real) \<le> of_int k + 1 / 2" using assms by simp
  show ?thesis
  proof (rule ccontr)
    assume "\<not> round_even x \<le> k"
    then have "k + 1 \<le> round_even x" by simp
    then have "(of_int (k + 1) :: real) \<le> of_int (round_even x)" by (simp only: of_int_le_iff)
    then show False using a by simp
  qed
qed

lemma round_even_ge_int:
  assumes "of_int k \<le> x"
  shows "k \<le> round_even x"
proof -
  have "x - 1 / 2 \<le> of_int (round_even x)" using round_even_bounds by blast
  then have a: "(of_int k :: real) - 1 / 2 \<le> of_int (round_even x)" using assms by simp
  show ?thesis
  proof (rule ccontr)
    assume "\<not> k \<le> round_even x"
    then have "round_even x \<le> k - 1" by simp
    then have "(of_int (round_even x) :: real) \<le> of_int (k - 1)" by (simp only: of_int_le_iff)
    then show False using a by simp
  qed
qed

lemma round_even_lt_half:
  assumes "x < of_int k - 1 / 2"
  shows "round_even x \<le> k - 1"
proof -
  have "of_int (round_even x) \<le> x + 1 / 2" using round_even_bounds by blast
  then have a: "(of_int (round_even x) :: real) < of_int k" using assms by simp
  then have "round_even x < k" by (simp only: of_int_less_iff)
  then show ?thesis by simp
qed

lemma two_powi_diff: "(2 :: real) powi a / 2 powi b = 2 powi (a - b)"
  by (simp add: power_int_diff)

lemma two_powi_nat: "0 \<le> k \<Longrightarrow> (2 :: real) powi k = of_int (2 ^ nat k)"
  by (simp add: power_int_nonneg_exp)

lemma two_powi_mono: "a \<le> b \<Longrightarrow> (2 :: real) powi a \<le> 2 powi b"
  by (rule power_int_increasing) simp_all

lemma binade_up_bounds:
  "1 \<le> r \<Longrightarrow> 2 powi (binade_up r e) \<le> r * 2 powi e \<and> r * 2 powi e < 2 powi (binade_up r e + 1)"
proof (induction r e rule: binade_up.induct)
  case (1 r e)
  show ?case
  proof (cases "r < 2")
    case True
    then have b: "binade_up r e = e" by (simp add: binade_up.simps)
    have "2 powi (e + 1) = 2 * (2 :: real) powi e" by (simp add: power_int_add)
    then show ?thesis using True 1(2) by (simp add: b)
  next
    case False
    then have b: "binade_up r e = binade_up (r / 2) (e + 1)" by (subst binade_up.simps) simp
    have h: "1 \<le> r / 2" using False by simp
    have "(2 :: real) powi (e + 1) = 2 powi e * 2" by (simp add: power_int_add)
    then have eq: "r / 2 * 2 powi (e + 1) = r * 2 powi e" by simp
    from 1(1) [OF False h] show ?thesis unfolding b eq .
  qed
qed

lemma binade_down_bounds:
  "0 < r \<Longrightarrow> r < 2 \<Longrightarrow>
   2 powi (binade_down r e) \<le> r * 2 powi e \<and> r * 2 powi e < 2 powi (binade_down r e + 1)"
proof (induction r e rule: binade_down.induct)
  case (1 r e)
  show ?case
  proof (cases "1 \<le> r")
    case True
    then have b: "binade_down r e = e" by (simp add: binade_down.simps)
    have "2 powi (e + 1) = 2 * (2 :: real) powi e" by (simp add: power_int_add)
    then show ?thesis using True 1(2,3) by (simp add: b)
  next
    case False
    then have g: "\<not> (r \<le> 0 \<or> 1 \<le> r)" using 1(2) by simp
    then have b: "binade_down r e = binade_down (2 * r) (e - 1)" by (subst binade_down.simps) simp
    have h: "0 < 2 * r" "2 * r < 2" using False 1(2) by simp_all
    have "(2 :: real) powi (e - 1) = 2 powi e / 2" by (simp add: power_int_diff)
    then have eq: "2 * r * 2 powi (e - 1) = r * 2 powi e" by simp
    from 1(1) [OF g h] show ?thesis unfolding b eq .
  qed
qed

lemma binade_bounds:
  assumes "r \<noteq> 0"
  shows "2 powi (binade r) \<le> \<bar>r\<bar> \<and> \<bar>r\<bar> < 2 powi (binade r + 1)"
proof (cases "1 \<le> \<bar>r\<bar>")
  case True
  then show ?thesis using binade_up_bounds [of "\<bar>r\<bar>" 0] by (simp add: binade_def)
next
  case False
  then have "0 < \<bar>r\<bar>" "\<bar>r\<bar> < 2" using assms by simp_all
  then show ?thesis using binade_down_bounds [of "\<bar>r\<bar>" 0] False by (simp add: binade_def)
qed

lemma two_powi_less: "(2 :: real) powi a < 2 powi b \<Longrightarrow> a < b"
proof (rule ccontr)
  assume a: "(2 :: real) powi a < 2 powi b" and "\<not> a < b"
  then have "b \<le> a" by simp
  then have "(2 :: real) powi b \<le> 2 powi a" by (rule power_int_increasing) simp
  then show False using a by simp
qed

lemma binade_unique:
  assumes "2 powi e \<le> \<bar>r\<bar>" and "\<bar>r\<bar> < 2 powi (e + 1)"
  shows "binade r = e"
proof -
  have "0 < (2 :: real) powi e" by simp
  then have "0 < \<bar>r\<bar>" using assms(1) by linarith
  then have nz: "r \<noteq> 0" by simp
  note b = binade_bounds [OF nz]
  have "(2 :: real) powi e < 2 powi (binade r + 1)" using assms(1) b by linarith
  then have "e < binade r + 1" by (rule two_powi_less)
  moreover have "(2 :: real) powi (binade r) < 2 powi (e + 1)" using assms(2) b by linarith
  then have "binade r < e + 1" by (rule two_powi_less)
  ultimately show ?thesis by simp
qed

lemma rnd_unfold:
  assumes "r \<noteq> 0"
  shows "rnd p emin emax r =
     (if (2 :: real) powi (emax + 1)
           \<le> \<bar>of_int (round_even (r / 2 powi (max emin (binade r) - (int p - 1))))
               * 2 powi (max emin (binade r) - (int p - 1))\<bar>
      then (if 0 < r then PInf else NInf)
      else Fin (of_int (round_even (r / 2 powi (max emin (binade r) - (int p - 1))))
                * 2 powi (max emin (binade r) - (int p - 1))))"
  using assms by (simp add: rnd_def Let_def)

text \<open>A value with a significand of at most \<open>p\<close> bits is its own rounding.\<close>

lemma rnd_exact:
  assumes r: "r = of_int m * 2 powi e"
      and m: "\<bar>m\<bar> < 2 ^ p"
      and e: "emin - (int p - 1) \<le> e"
      and big: "\<bar>r\<bar> < 2 powi (emax + 1)"
  shows "rnd p emin emax r = Fin r"
proof (cases "r = 0")
  case True
  then show ?thesis by (simp add: rnd_def)
next
  case False
  let ?t = "max emin (binade r) - (int p - 1)"
  have b: "2 powi (binade r) \<le> \<bar>r\<bar>" using binade_bounds [OF False] by simp
  have te: "?t \<le> e"
  proof (cases "binade r \<le> emin")
    case True
    then show ?thesis using e by simp
  next
    case False
    have "\<bar>r\<bar> = of_int \<bar>m\<bar> * 2 powi e"
      by (simp add: r abs_mult)
    also have "\<dots> < 2 ^ p * 2 powi e"
    proof -
      have "(of_int \<bar>m\<bar> :: real) < of_int (2 ^ p)" using m by (simp only: of_int_less_iff)
      then show ?thesis by (simp add: mult_strict_right_mono)
    qed
    also have "\<dots> = 2 powi (int p + e)"
      by (simp add: power_int_add)
    finally have "(2 :: real) powi (binade r) < 2 powi (int p + e)" using b by simp
    then have "binade r < int p + e" by (rule two_powi_less)
    then show ?thesis using False by simp
  qed
  have "r / 2 powi ?t = of_int m * (2 powi e / 2 powi ?t)"
    by (simp add: r)
  also have "\<dots> = of_int m * 2 powi (e - ?t)"
    by (simp only: two_powi_diff)
  also have "\<dots> = of_int (m * 2 ^ nat (e - ?t))"
    using te by (simp add: two_powi_nat)
  finally have q: "r / 2 powi ?t = of_int (m * 2 ^ nat (e - ?t))" .
  have "of_int (round_even (r / 2 powi ?t)) * 2 powi ?t = r / 2 powi ?t * 2 powi ?t"
    unfolding q round_even_of_int ..
  also have "\<dots> = r" by simp
  finally have bk: "of_int (round_even (r / 2 powi ?t)) * 2 powi ?t = r" .
  show ?thesis
    unfolding rnd_unfold [OF False] bk using big by simp
qed

lemma rnd_upper:
  assumes "0 < r" and "r \<le> 2 powi e" and "emin \<le> e" and "0 < p"
      and "rnd p emin emax r = Fin q"
  shows "q \<le> 2 powi e"
proof -
  have nz: "r \<noteq> 0" using assms(1) by simp
  let ?t = "max emin (binade r) - (int p - 1)"
  have "2 powi (binade r) \<le> \<bar>r\<bar>" using binade_bounds [OF nz] by simp
  then have "(2 :: real) powi (binade r) < 2 powi (e + 1)"
  proof -
    have "(2 :: real) powi e < 2 powi (e + 1)" by (rule power_int_strict_increasing) simp_all
    then show ?thesis using \<open>2 powi (binade r) \<le> \<bar>r\<bar>\<close> assms(1,2) by simp
  qed
  then have "binade r < e + 1" by (rule two_powi_less)
  then have te: "?t \<le> e" using assms(3,4) by simp
  have "r / 2 powi ?t \<le> 2 powi e / 2 powi ?t"
    using assms(2) by (simp add: divide_right_mono)
  also have "\<dots> = of_int (2 ^ nat (e - ?t))"
    using te by (simp only: two_powi_diff) (simp add: two_powi_nat)
  finally have "round_even (r / 2 powi ?t) \<le> 2 ^ nat (e - ?t)"
    by (rule round_even_le_int)
  then have "(of_int (round_even (r / 2 powi ?t)) :: real) \<le> of_int (2 ^ nat (e - ?t))"
    by (simp only: of_int_le_iff)
  then have "real_of_int (round_even (r / 2 powi ?t)) * 2 powi ?t \<le> real_of_int (2 ^ nat (e - ?t)) * 2 powi ?t"
    by (simp add: mult_right_mono)
  also have "real_of_int (2 ^ nat (e - ?t)) * 2 powi ?t = (2 :: real) powi (e - ?t) * 2 powi ?t"
    using te by (simp add: two_powi_nat)
  also have "\<dots> = 2 powi e"
    by (simp flip: power_int_add)
  finally have le: "real_of_int (round_even (r / 2 powi ?t)) * 2 powi ?t \<le> 2 powi e" .
  from assms(5) have "q = of_int (round_even (r / 2 powi ?t)) * 2 powi ?t"
    unfolding rnd_unfold [OF nz] by (simp split: if_splits)
  then show ?thesis using le by simp
qed

lemma rnd_lower:
  assumes "2 powi e \<le> r" and "emin \<le> e" and "0 < p"
      and "rnd p emin emax r = Fin q"
  shows "2 powi e \<le> q"
proof -
  have rpos: "0 < r"
  proof -
    have "0 < (2 :: real) powi e" by simp
    then show ?thesis using assms(1) by linarith
  qed
  then have nz: "r \<noteq> 0" by simp
  let ?b = "binade r"
  let ?t = "max emin ?b - (int p - 1)"
  have bb: "2 powi ?b \<le> r" "r < 2 powi (?b + 1)" using binade_bounds [OF nz] rpos by simp_all
  have "(2 :: real) powi e < 2 powi (?b + 1)" using assms(1) bb(2) by simp
  then have "e < ?b + 1" by (rule two_powi_less)
  then have eb: "e \<le> ?b" by simp
  then have t: "?t = ?b - (int p - 1)" using assms(2) by simp
  have tb: "?t \<le> ?b" using t assms(3) by simp
  have "of_int (2 ^ nat (?b - ?t)) = (2 :: real) powi ?b / 2 powi ?t"
    using tb by (simp only: two_powi_diff) (simp add: two_powi_nat)
  also have "\<dots> \<le> r / 2 powi ?t"
    using bb(1) by (simp add: divide_right_mono)
  finally have "2 ^ nat (?b - ?t) \<le> round_even (r / 2 powi ?t)"
    by (rule round_even_ge_int)
  then have "(of_int (2 ^ nat (?b - ?t)) :: real) \<le> of_int (round_even (r / 2 powi ?t))"
    by (simp only: of_int_le_iff)
  then have k: "real_of_int (2 ^ nat (?b - ?t)) \<le> real_of_int (round_even (r / 2 powi ?t))" .
  have "(2 :: real) powi ?b = 2 powi (?b - ?t) * 2 powi ?t"
    by (simp flip: power_int_add)
  also have "\<dots> = real_of_int (2 ^ nat (?b - ?t)) * 2 powi ?t"
    using tb by (simp add: two_powi_nat)
  also have "\<dots> \<le> real_of_int (round_even (r / 2 powi ?t)) * 2 powi ?t"
    using k by (intro mult_right_mono) simp_all
  finally have ge: "2 powi ?b \<le> real_of_int (round_even (r / 2 powi ?t)) * 2 powi ?t" .
  from assms(4) have "q = of_int (round_even (r / 2 powi ?t)) * 2 powi ?t"
    unfolding rnd_unfold [OF nz] by (simp split: if_splits)
  then have "2 powi ?b \<le> q" using ge by simp
  moreover have "(2 :: real) powi e \<le> 2 powi ?b" using eb by (rule two_powi_mono)
  ultimately show ?thesis by simp
qed

lemma rnd_nonneg:
  assumes "0 \<le> r"
  shows "rnd p emin emax r = PInf \<or> (\<exists>q. rnd p emin emax r = Fin q \<and> 0 \<le> q)"
proof (cases "r = 0")
  case True
  then show ?thesis by (simp add: rnd_def)
next
  case False
  let ?u = "(2 :: real) powi (max emin (binade r) - (int p - 1))"
  have "0 \<le> r / ?u" using assms by simp
  then have "(of_int 0 :: real) \<le> r / ?u" by simp
  then have "0 \<le> round_even (r / ?u)" by (rule round_even_ge_int)
  then have q: "0 \<le> (of_int (round_even (r / ?u)) :: real) * ?u" by simp
  have "0 < r" using assms False by simp
  then show ?thesis
    using q by (simp add: rnd_unfold [OF False])
qed

lemma rnd_nonpos:
  assumes "r \<le> 0"
  shows "rnd p emin emax r = NInf \<or> (\<exists>q. rnd p emin emax r = Fin q \<and> q \<le> 0)"
proof (cases "r = 0")
  case True
  then show ?thesis by (simp add: rnd_def)
next
  case False
  let ?u = "(2 :: real) powi (max emin (binade r) - (int p - 1))"
  have "r / ?u \<le> 0" using assms by (simp add: divide_nonpos_pos)
  then have "r / ?u \<le> (of_int 0 :: real)" by simp
  then have "round_even (r / ?u) \<le> 0" by (rule round_even_le_int)
  then have q: "(of_int (round_even (r / ?u)) :: real) * ?u \<le> 0"
    by (simp add: mult_nonpos_nonneg)
  have "\<not> 0 < r" using assms by simp
  then show ?thesis
    using q by (simp add: rnd_unfold [OF False])
qed

lemma rnd_eval:
  assumes "2 powi e \<le> \<bar>r\<bar>" and "\<bar>r\<bar> < 2 powi (e + 1)" and "emin \<le> e"
      and "round_even (r / 2 powi (e - (int p - 1))) = k"
      and "\<bar>of_int k * (2 :: real) powi (e - (int p - 1))\<bar> < 2 powi (emax + 1)"
  shows "rnd p emin emax r = Fin (of_int k * 2 powi (e - (int p - 1)))"
proof -
  have b: "binade r = e" using assms(1,2) by (rule binade_unique)
  have "0 < (2 :: real) powi e" by simp
  then have "0 < \<bar>r\<bar>" using assms(1) by linarith
  then have nz: "r \<noteq> 0" by simp
  have m: "max emin (binade r) = e" using b assms(3) by simp
  show ?thesis
    unfolding rnd_unfold [OF nz] m assms(4) using assms(5) by simp
qed

lemma rnd32_exact:
  assumes "r = of_int m * 2 powi e" and "\<bar>m\<bar> < 2 ^ 24" and "- 149 \<le> e" and "\<bar>r\<bar> < 2 powi 128"
  shows "rnd32 r = Fin r"
  unfolding rnd32_def using assms by (intro rnd_exact [of r m e]) simp_all

lemma rnd32_int: "\<bar>k\<bar> < 2 ^ 24 \<Longrightarrow> rnd32 (of_int k) = Fin (of_int k)"
proof -
  assume k: "\<bar>k\<bar> < 2 ^ 24"
  then have "\<bar>real_of_int k\<bar> < 2 ^ 24"
    by (metis of_int_abs of_int_less_iff of_int_numeral of_int_power)
  then have "\<bar>real_of_int k\<bar> < 2 powi 128" by simp
  then show ?thesis using k by (intro rnd32_exact [of _ k 0]) simp_all
qed

lemma rnd32_numeral [simp]: "rnd32 0 = Fin 0" "rnd32 1 = Fin 1"
  using rnd32_int [of 0] rnd32_int [of 1] by simp_all


lemma double_0_1: "rnd64 (1 / 10) = Fin (3602879701896397 / 2 ^ 55)"
proof -
  have "round_even ((1 / 10) / 2 powi (- 4 - (int 53 - 1))) = 7205759403792794"
    by (rule round_even_near) simp_all
  then have "rnd 53 (- 1022) 1023 (1 / 10) = Fin (of_int 7205759403792794 * 2 powi (- 4 - (int 53 - 1)))"
    by (intro rnd_eval) simp_all
  then show ?thesis by (simp add: rnd64_def)
qed

lemma float_0_1: "rnd32 (1 / 10) = Fin (13421773 / 2 ^ 27)"
proof -
  have "round_even ((1 / 10) / 2 powi (- 4 - (int 24 - 1))) = 13421773"
    by (rule round_even_near) simp_all
  then have "rnd 24 (- 126) 127 (1 / 10) = Fin (of_int 13421773 * 2 powi (- 4 - (int 24 - 1)))"
    by (intro rnd_eval) simp_all
  then show ?thesis by (simp add: rnd32_def)
qed

lemma rnd32_near_100: "rnd32 (100 - 1 / 2 ^ 30) = Fin 100"
proof -
  have "round_even ((100 - 1 / 2 ^ 30) / 2 powi (6 - (int 24 - 1))) = 13107200"
    by (rule round_even_near) simp_all
  then have "rnd 24 (- 126) 127 (100 - 1 / 2 ^ 30) = Fin (of_int 13107200 * 2 powi (6 - (int 24 - 1)))"
    by (intro rnd_eval) simp_all
  then show ?thesis by (simp add: rnd32_def)
qed

lemma rnd32_overflow: "rnd32 (- (2 ^ 128)) = NInf"
  by (simp add: rnd32_def rnd_def Let_def binade_unique [of 128] round_even_def)

lemma rnd_pos_bounded:
  assumes "0 < r" and "r \<le> 2 powi e" and "emin \<le> e" and "e \<le> emax" and "0 < p"
  shows "\<exists>q. rnd p emin emax r = Fin q \<and> 0 \<le> q \<and> q \<le> 2 powi e"
proof -
  have "(2 :: real) powi e < 2 powi (emax + 1)"
    using assms(4) by (intro power_int_strict_increasing) simp_all
  have "rnd p emin emax r = PInf \<or> (\<exists>q. rnd p emin emax r = Fin q \<and> 0 \<le> q)"
    using assms(1) by (intro rnd_nonneg) simp
  then show ?thesis
  proof
    assume inf: "rnd p emin emax r = PInf"
    have nz: "r \<noteq> 0" using assms(1) by simp
    let ?t = "max emin (binade r) - (int p - 1)"
    let ?q = "real_of_int (round_even (r / 2 powi ?t)) * 2 powi ?t"
    have big: "2 powi (emax + 1) \<le> \<bar>?q\<bar>"
      using inf unfolding rnd_unfold [OF nz] by (simp split: if_splits)
    have "2 powi (binade r) \<le> \<bar>r\<bar>" using binade_bounds [OF nz] by simp
    then have "(2 :: real) powi (binade r) < 2 powi (e + 1)"
    proof -
      have "(2 :: real) powi e < 2 powi (e + 1)" by (rule power_int_strict_increasing) simp_all
      then show ?thesis using \<open>2 powi (binade r) \<le> \<bar>r\<bar>\<close> assms(1,2) by simp
    qed
    then have "binade r < e + 1" by (rule two_powi_less)
    then have te: "?t \<le> e" using assms(3,5) by simp
    have "r / 2 powi ?t \<le> 2 powi e / 2 powi ?t"
      using assms(2) by (simp add: divide_right_mono)
    also have "\<dots> = of_int (2 ^ nat (e - ?t))"
      using te by (simp only: two_powi_diff) (simp add: two_powi_nat)
    finally have "round_even (r / 2 powi ?t) \<le> 2 ^ nat (e - ?t)"
      by (rule round_even_le_int)
    then have "real_of_int (round_even (r / 2 powi ?t)) \<le> real_of_int (2 ^ nat (e - ?t))"
      by (simp only: of_int_le_iff)
    then have "?q \<le> real_of_int (2 ^ nat (e - ?t)) * 2 powi ?t"
      by (intro mult_right_mono) simp_all
    also have "real_of_int (2 ^ nat (e - ?t)) * 2 powi ?t = (2 :: real) powi (e - ?t) * 2 powi ?t"
      using te by (simp add: two_powi_nat)
    also have "\<dots> = 2 powi e"
      by (simp flip: power_int_add)
    finally have le: "?q \<le> 2 powi e" .
    have "0 \<le> r / 2 powi ?t" using assms(1) by simp
    then have "real_of_int 0 \<le> r / 2 powi ?t" by simp
    then have "0 \<le> round_even (r / 2 powi ?t)" by (rule round_even_ge_int)
    then have "0 \<le> ?q" by simp
    then have "\<bar>?q\<bar> \<le> 2 powi e" using le by simp
    then show ?thesis
      using big \<open>(2 :: real) powi e < 2 powi (emax + 1)\<close> by linarith
  next
    assume "\<exists>q. rnd p emin emax r = Fin q \<and> 0 \<le> q"
    then obtain q where q: "rnd p emin emax r = Fin q" "0 \<le> q" by blast
    have "q \<le> 2 powi e"
      using assms(1,2,3,5) q(1) by (rule rnd_upper)
    then show ?thesis using q by simp
  qed
qed

text \<open>
  No binary32 value lies between one tenth and the binary32 value of \<open>0.1\<close>,
  \<open>13421773 / 2^27\<close>, which is above the binary64 value of the literal \<open>0.1\<close>.
\<close>

lemma rnd32_not_near_tenth:
  assumes "rnd32 r = Fin t"
  shows "\<not> (1 / 10 \<le> t \<and> t < 13421773 / 2 ^ 27)"
proof
  assume h: "1 / 10 \<le> t \<and> t < 13421773 / 2 ^ 27"
  note a = assms [unfolded rnd32_def]
  have rpos: "0 < r"
  proof (rule ccontr)
    assume "\<not> 0 < r"
    then have "r \<le> 0" by simp
    then have "rnd 24 (- 126) 127 r = NInf \<or> (\<exists>q. rnd 24 (- 126) 127 r = Fin q \<and> q \<le> 0)"
      by (rule rnd_nonpos)
    then show False using a h by auto
  qed
  have hi: "r < 2 powi (- 3)"
  proof (rule ccontr)
    assume "\<not> r < 2 powi (- 3)"
    then have "2 powi (- 3) \<le> r" by simp
    then have "2 powi (- 3) \<le> t"
      using a by (intro rnd_lower [of "- 3" r "- 126" 24 127 t]) simp_all
    then show False using h by simp
  qed
  have lo: "2 powi (- 4) < r"
  proof (rule ccontr)
    assume "\<not> 2 powi (- 4) < r"
    then have "r \<le> 2 powi (- 4)" by simp
    then have "t \<le> 2 powi (- 4)"
      using rpos a by (intro rnd_upper [of r "- 4" "- 126" 24 127 t]) simp_all
    then show False using h by simp
  qed
  have b: "binade r = - 4"
    using lo hi rpos by (intro binade_unique) simp_all
  have nz: "r \<noteq> 0" using rpos by simp
  define k where "k = round_even (r / 2 powi (- 27))"
  have "t = real_of_int k * 2 powi (- 27)"
    using a unfolding rnd_unfold [OF nz] b k_def by (simp split: if_splits)
  then have t: "t = real_of_int k / 2 ^ 27" by simp
  have "13421772 < real_of_int k" using h unfolding t by simp
  then have "13421772 < k" by simp
  moreover have "real_of_int k < 13421773" using h unfolding t by simp
  then have "k < 13421773" by simp
  ultimately show False by simp
qed

text \<open>Every value below \<open>100 - 2^-18\<close> rounds to a binary32 value below 100.\<close>

lemma rnd32_below_100:
  assumes "r < 100 - 1 / 2 ^ 18"
  shows "fl_less (rnd32 r) (Fin 100)"
proof -
  consider "r \<le> 0" | "0 < r" "r \<le> 64" | "64 < r" by linarith
  then show ?thesis
  proof cases
    case 1
    then have "rnd 24 (- 126) 127 r = NInf \<or> (\<exists>q. rnd 24 (- 126) 127 r = Fin q \<and> q \<le> 0)"
      by (rule rnd_nonpos)
    then show ?thesis by (auto simp: rnd32_def)
  next
    case 2
    have "\<exists>q. rnd 24 (- 126) 127 r = Fin q \<and> 0 \<le> q \<and> q \<le> 2 powi 6"
      using 2 by (intro rnd_pos_bounded) simp_all
    then show ?thesis by (auto simp: rnd32_def)
  next
    case 3
    then have nz: "r \<noteq> 0" by simp
    have b: "binade r = 6"
      using 3 assms by (intro binade_unique) simp_all
    define k where "k = round_even (r / 2 powi (- 17))"
    have "r / 2 powi (- 17) < real_of_int 13107200 - 1 / 2"
      using assms by simp
    then have ku: "k \<le> 13107199"
      unfolding k_def using round_even_lt_half [of "r / 2 powi (- 17)" 13107200] by simp
    have "real_of_int 0 \<le> r / 2 powi (- 17)" using 3 by simp
    then have kl: "0 \<le> k" unfolding k_def by (rule round_even_ge_int)
    have "real_of_int k \<le> 13107199" using ku by simp
    then have q: "real_of_int k * 2 powi (- 17) < 100" by simp
    have q0: "0 \<le> real_of_int k * 2 powi (- 17)" using kl by simp
    have "rnd 24 (- 126) 127 r = Fin (real_of_int k * 2 powi (- 17))"
      unfolding rnd_unfold [OF nz] b using q q0 by (simp add: k_def)
    then show ?thesis using q by (simp add: rnd32_def)
  qed
qed



lemma exact32_zero [simp]: "exact32 0"
  by (simp add: exact32_def)

lemma rnd32_num [simp]: "\<bar>numeral n :: int\<bar> < 2 ^ 24 \<Longrightarrow> rnd32 (numeral n) = Fin (numeral n)"
  using rnd32_int [of "numeral n"] by simp

lemma exact32_num [simp]: "\<bar>numeral n :: int\<bar> < 2 ^ 24 \<Longrightarrow> exact32 (numeral n)"
  by (simp add: exact32_def)

lemma exact32_one [simp]: "exact32 1"
  by (simp add: exact32_def)



text \<open>The rounding never gives NaN, and gives no negative value on a non-negative real.\<close>

lemma rnd_not_NaN: "rnd p emin emax r \<noteq> NaN"
  by (simp add: rnd_def Let_def)

lemma rnd32_sign:
  assumes "0 \<le> r"
  shows "rnd32 r \<noteq> NaN \<and> \<not> fl_less (rnd32 r) (Fin 0)"
  using rnd_nonneg [OF assms, of 24 "- 126" 127] by (auto simp: rnd32_def)

lemma rnd64_sign:
  assumes "0 \<le> r"
  shows "rnd64 r \<noteq> NaN \<and> \<not> fl_less (rnd64 r) (Fin 0)"
  using rnd_nonneg [OF assms, of 53 "- 1022" 1023] by (auto simp: rnd64_def)

lemma nonneg_cases:
  assumes "c \<noteq> NaN \<and> \<not> fl_less c (Fin 0)"
  obtains q where "c = Fin q" and "0 \<le> q" | "c = PInf"
  using assms by (cases c) auto

lemma fabs_diff_sign:
  "fabs (fsub rnd32 (Fin a) (Fin b)) \<noteq> NaN \<and> \<not> fl_less (fabs (fsub rnd32 (Fin a) (Fin b))) (Fin 0)"
proof -
  have "rnd32 (a - b) \<noteq> NaN" by (simp add: rnd32_def rnd_not_NaN)
  then show ?thesis by (cases "rnd32 (a - b)") (simp_all add: fsub_def)
qed

lemma scaled_sign:
  assumes c: "c \<noteq> NaN \<and> \<not> fl_less c (Fin 0)" and d: "0 < d"
  shows "narrow (fdiv rnd64 c (Fin d)) \<noteq> NaN \<and> \<not> fl_less (narrow (fdiv rnd64 c (Fin d))) (Fin 0)"
  using c
proof (cases c rule: nonneg_cases)
  case (1 q)
  then have "0 \<le> q / d" using d by simp
  then have "rnd64 (q / d) \<noteq> NaN \<and> \<not> fl_less (rnd64 (q / d)) (Fin 0)" by (rule rnd64_sign)
  then show ?thesis
  proof (cases "rnd64 (q / d)" rule: nonneg_cases)
    case (1 v)
    then show ?thesis
      using rnd32_sign [of v] \<open>c = Fin q\<close> d by simp
  next
    case 2
    then show ?thesis using \<open>c = Fin q\<close> d by simp
  qed
next
  case 2
  then show ?thesis using d by simp
qed

lemma fadd_sign:
  assumes "a \<noteq> NaN \<and> \<not> fl_less a (Fin 0)" and "b \<noteq> NaN \<and> \<not> fl_less b (Fin 0)"
  shows "fadd rnd32 a b \<noteq> NaN \<and> \<not> fl_less (fadd rnd32 a b) (Fin 0)"
  using assms(1)
proof (cases a rule: nonneg_cases)
  case (1 x)
  note a = this
  from assms(2) show ?thesis
  proof (cases b rule: nonneg_cases)
    case (1 y)
    then show ?thesis using a rnd32_sign [of "x + y"] by simp
  next
    case 2
    then show ?thesis using a by simp
  qed
next
  case 2
  note a = this
  from assms(2) show ?thesis
  proof (cases b rule: nonneg_cases)
    case (1 y)
    then show ?thesis using a by simp
  next
    case 2
    then show ?thesis using a by simp
  qed
qed

lemma rnd32_half: "rnd32 (1 / 2) = Fin (1 / 2)" "rnd32 (1 / 4) = Fin (1 / 4)"
  using rnd32_exact [of "1 / 2" 1 "- 1"] rnd32_exact [of "1 / 4" 1 "- 2"] by simp_all

text \<open>The \<open>double\<close> literal \<open>0.2\<close>.\<close>

lemma double_0_2: "rnd64 (2 / 10) = Fin (3602879701896397 / 2 ^ 54)"
proof -
  have "round_even ((2 / 10) / 2 powi (- 3 - (int 53 - 1))) = 7205759403792794"
    by (rule round_even_near) simp_all
  then have "rnd 53 (- 1022) 1023 (2 / 10) = Fin (of_int 7205759403792794 * 2 powi (- 3 - (int 53 - 1)))"
    by (intro rnd_eval) simp_all
  then show ?thesis by (simp add: rnd64_def)
qed

section \<open>Properties of RunningStats\<close>
























text \<open>
  Claim C9.  A non-finite input (NaN, \<open>+Inf\<close>, \<open>-Inf\<close>) leaves the whole state as it was:
  count, mean, M2 (hence variance and standard deviation), minimum and maximum.
\<close>

theorem push_nonfinite_unchanged:
  assumes "\<not> isfinite x"
  shows "push x s = s \<and>
         getCount (push x s) = getCount s \<and> getMean (push x s) = getMean s \<and>
         getVariance (push x s) = getVariance s \<and> getStdDev (push x s) = getStdDev s \<and>
         rs_M2 (push x s) = rs_M2 s \<and>
         rs_minVal (push x s) = rs_minVal s \<and> rs_maxVal (push x s) = rs_maxVal s"
proof -
  have "push x s = s"
    using assms by (cases x) simp_all
  then show ?thesis by simp
qed

theorem push_nonfinite_unchanged_witness:
  "\<not> isfinite NaN \<and> \<not> isfinite PInf \<and> \<not> isfinite NInf \<and>
   push NaN (pushAll [Fin 2, Fin 4, Fin 9]) = pushAll [Fin 2, Fin 4, Fin 9] \<and>
   push PInf (pushAll [Fin 2, Fin 4, Fin 9]) = pushAll [Fin 2, Fin 4, Fin 9] \<and>
   push NInf (pushAll [Fin 2, Fin 4, Fin 9]) = pushAll [Fin 2, Fin 4, Fin 9]"
  using push_nonfinite_unchanged [of NaN "pushAll [Fin 2, Fin 4, Fin 9]"]
        push_nonfinite_unchanged [of PInf "pushAll [Fin 2, Fin 4, Fin 9]"]
        push_nonfinite_unchanged [of NInf "pushAll [Fin 2, Fin 4, Fin 9]"]
  by simp

section \<open>Properties of ChatterMemory\<close>

lemma saveToFlash_events [simp]: "events (saveToFlash m) = events m"
  by (simp add: saveToFlash_def Let_def)

lemma saveToFlash_histogram [simp]: "chatterFreqHistogram (saveToFlash m) = chatterFreqHistogram m"
  by (simp add: saveToFlash_def Let_def)

lemma recordEvent_events:
  "events (recordEvent e m) =
     (if length (events m) < 50 then events m @ [e] else tl (events m @ [e]))"
  by (simp add: recordEvent_def Let_def MAX_EVENTS_def)

lemma c_int_cast_nonneg: "0 \<le> r \<Longrightarrow> c_int_cast r = \<lfloor>r\<rfloor>"
  by (simp add: c_int_cast_def)

lemma recordEvent_histogram:
  assumes "0 \<le> frequency e" and "frequency e < 10000"
  shows "chatterFreqHistogram (recordEvent e m) =
           (chatterFreqHistogram m)[nat \<lfloor>frequency e / 100\<rfloor> :=
              chatterFreqHistogram m ! nat \<lfloor>frequency e / 100\<rfloor> + 1]"
proof -
  have "0 \<le> frequency e / 100" using assms(1) by simp
  then have c: "c_int_cast (frequency e / 100) = \<lfloor>frequency e / 100\<rfloor>"
    by (rule c_int_cast_nonneg)
  have lo: "0 \<le> \<lfloor>frequency e / 100\<rfloor>" using assms(1) by simp
  have "frequency e / 100 < 100" using assms(2) by simp
  then have hi: "\<lfloor>frequency e / 100\<rfloor> < 100" by (simp add: floor_less_iff)
  show ?thesis
    using lo hi by (simp add: recordEvent_def Let_def c bump_bin_def)
qed

lemma recordEvent_events_drop:
  assumes "length (events m) \<le> 50"
  shows "events (recordEvent e m) = drop (length (events m) + 1 - 50) (events m @ [e])"
proof (cases "length (events m) < 50")
  case True
  then show ?thesis by (simp add: recordEvent_events)
next
  case False
  with assms have l: "length (events m) = 50" by simp
  have "drop (Suc 0) (events m @ [e]) = tl (events m @ [e])"
    unfolding drop_Suc by simp
  then show ?thesis using l by (simp add: recordEvent_events)
qed

lemma recordEvent_length:
  "length (events m) \<le> 50 \<Longrightarrow> length (events (recordEvent e m)) \<le> 50"
  by (simp add: recordEvent_events)

lemma recordAll_events:
  "length (events m) \<le> 50 \<Longrightarrow>
   events (recordAll m es) = drop (length (events m) + length es - 50) (events m @ es)"
proof (induction es arbitrary: m)
  case Nil
  then show ?case by (simp add: recordAll_def)
next
  case (Cons e es)
  let ?m = "recordEvent e m"
  have len: "length (events ?m) \<le> 50" using Cons.prems by (rule recordEvent_length)
  have "events (recordAll m (e # es)) = events (recordAll ?m es)"
    by (simp add: recordAll_def)
  also have "\<dots> = drop (length (events ?m) + length es - 50) (events ?m @ es)"
    using Cons.IH [OF len] .
  also have "\<dots> = drop (length (events m) + length (e # es) - 50) (events m @ e # es)"
  proof (cases "length (events m) < 50")
    case True
    then show ?thesis by (simp add: recordEvent_events)
  next
    case False
    with Cons.prems have l: "length (events m) = 50" by simp
    then have ne: "events m \<noteq> []" by auto
    have a: "events ?m @ es = tl (events m @ e # es)"
      using l ne by (simp add: recordEvent_events)
    have b: "length (events ?m) + length es - 50 = length es"
      using l by (simp add: recordEvent_events)
    have c: "length (events m) + length (e # es) - 50 = Suc (length es)"
      using l by simp
    show ?thesis
      unfolding a b c drop_Suc ..
  qed
  finally show ?case .
qed

lemma recordAll_length:
  "length (events m) \<le> 50 \<Longrightarrow> length (events (recordAll m es)) \<le> 50"
  by (simp add: recordAll_events)

lemma String_digit: "i < 10 \<Longrightarrow> String i = [digit_char i]"
  by simp

lemma digit_char_inj: "i < 10 \<Longrightarrow> j < 10 \<Longrightarrow> digit_char i = digit_char j \<Longrightarrow> i = j"
proof -
  assume a: "i < 10" "j < 10" "digit_char i = digit_char j"
  then have "of_char (char_of (48 + i)) = (of_char (char_of (48 + j)) :: nat)"
    by (simp add: digit_char_def)
  then have "(48 + i) mod 256 = (48 + j) mod 256"
    by (simp only: of_char_of)
  then show "i = j" using a(1,2) by simp
qed

lemma evt_key_inj: "i < 10 \<Longrightarrow> j < 10 \<Longrightarrow> evt_key i = evt_key j \<Longrightarrow> i = j"
  using digit_char_inj [of i j] by (simp add: evt_key_def del: String.simps add: String_digit)

lemma evt_key_other: "i < 10 \<Longrightarrow> evt_key i \<noteq> ''histogram'' \<and> evt_key i \<noteq> ''eventCount''"
  by (simp add: evt_key_def)

lemma save_loop_other:
  "\<forall>i<k. evt_key i \<noteq> key \<Longrightarrow> foldl (save_event evs) p [0 ..< k] key = p key"
  by (induction k) (auto simp: save_event_def)

lemma save_loop_evt:
  "k \<le> 10 \<Longrightarrow> j < k \<Longrightarrow>
   foldl (save_event evs) p [0 ..< k] (evt_key j) = Some (EventBlob (evs ! (length evs - 1 - j)))"
proof (induction k)
  case 0
  then show ?case by simp
next
  case (Suc k)
  show ?case
  proof (cases "j = k")
    case True
    then show ?thesis by (simp add: save_event_def)
  next
    case False
    with Suc.prems have jk: "j < k" and k: "k \<le> 10" by simp_all
    have "evt_key k \<noteq> evt_key j"
      using evt_key_inj [of k j] Suc.prems False by auto
    then show ?thesis
      using Suc.IH [OF k jk] by (simp add: save_event_def)
  qed
qed

lemma load_loop_found:
  assumes "\<forall>j. 0 \<le> j \<and> j \<le> i \<longrightarrow> p (evt_key (nat j)) = Some (EventBlob (f (nat j)))"
  shows "load_loop p i acc = acc @ map f (rev [0 ..< nat (i + 1)])"
  using assms
proof (induction p i acc rule: load_loop.induct)
  case (1 p i evs)
  show ?case
  proof (cases "0 \<le> i")
    case False
    then show ?thesis by (subst load_loop.simps) simp
  next
    case True
    have here: "p (evt_key (nat i)) = Some (EventBlob (f (nat i)))"
      using "1.prems" True by simp
    have rest: "\<forall>j. 0 \<le> j \<and> j \<le> i - 1 \<longrightarrow> p (evt_key (nat j)) = Some (EventBlob (f (nat j)))"
      using "1.prems" by simp
    have n: "nat (i + 1) = Suc (nat i)" "nat (i - 1 + 1) = nat i"
      using True by simp_all
    have "load_loop p i evs = load_loop p (i - 1) (evs @ [f (nat i)])"
      using True here by (subst load_loop.simps) simp
    also have "\<dots> = (evs @ [f (nat i)]) @ map f (rev [0 ..< nat (i - 1 + 1)])"
      using "1.IH" [OF True rest] here by simp
    finally show ?thesis by (simp add: n)
  qed
qed

lemma last_events_by_index:
  "k \<le> length evs \<Longrightarrow>
   map (\<lambda>j. evs ! (length evs - 1 - j)) (rev [0 ..< k]) = drop (length evs - k) evs"
proof (rule nth_equalityI)
  assume k: "k \<le> length evs"
  show "length (map (\<lambda>j. evs ! (length evs - 1 - j)) (rev [0 ..< k])) = length (drop (length evs - k) evs)"
    using k by simp
  fix t
  assume "t < length (map (\<lambda>j. evs ! (length evs - 1 - j)) (rev [0 ..< k]))"
  then have t: "t < k" by simp
  then have "rev [0 ..< k] ! t = k - 1 - t"
    by (simp add: rev_nth)
  moreover have "length evs - 1 - (k - 1 - t) = length evs - k + t"
    using t k by simp
  ultimately show "map (\<lambda>j. evs ! (length evs - 1 - j)) (rev [0 ..< k]) ! t = drop (length evs - k) evs ! t"
    using t k by simp
qed

text \<open>A weight is a finite value between 0 and 1.\<close>

lemma expf_neg_range:
  assumes "a \<noteq> NaN \<and> \<not> fl_less a (Fin 0)"
  shows "\<exists>w. expf (fneg a) = Fin w \<and> 0 \<le> w \<and> w \<le> 1"
  using assms
proof (cases a rule: nonneg_cases)
  case (1 q)
  have "0 < exp (- q)" by simp
  moreover have "exp (- q) \<le> 2 powi 0" using 1 by simp
  ultimately have "\<exists>w. rnd 24 (- 126) 127 (exp (- q)) = Fin w \<and> 0 \<le> w \<and> w \<le> 2 powi 0"
    by (intro rnd_pos_bounded) simp_all
  then show ?thesis using 1 by (simp add: rnd32_def)
next
  case 2
  then show ?thesis by simp
qed

lemma similarity_range: "\<exists>w. similarity freq rpm e = Fin w \<and> 0 \<le> w \<and> w \<le> 1"
  unfolding similarity_def
  by (intro expf_neg_range fadd_sign scaled_sign fabs_diff_sign) simp_all

text \<open>
  The total weight is 0, or the result of a binary32 addition and not negative: it is
  never NaN, and it is not between one tenth and the \<open>double\<close> literal \<open>0.1\<close>.
\<close>

lemma sum_weights_float:
  assumes "c = Fin 0 \<or> c = PInf \<or> (\<exists>r. 0 \<le> r \<and> c = rnd32 r)"
      and "\<forall>w \<in> set ws. \<exists>v. w = Fin v \<and> 0 \<le> v"
  shows "foldl (fadd rnd32) c ws = Fin 0 \<or> foldl (fadd rnd32) c ws = PInf
           \<or> (\<exists>r. 0 \<le> r \<and> foldl (fadd rnd32) c ws = rnd32 r)"
  using assms
proof (induction ws arbitrary: c)
  case Nil
  then show ?case by simp
next
  case (Cons w ws)
  from Cons.prems(2) obtain v where w: "w = Fin v" and v: "0 \<le> v" by auto
  have "fadd rnd32 c w = Fin 0 \<or> fadd rnd32 c w = PInf \<or> (\<exists>r. 0 \<le> r \<and> fadd rnd32 c w = rnd32 r)"
  proof -
    consider "c = Fin 0" | "c = PInf" | r where "0 \<le> r" "c = rnd32 r"
      using Cons.prems(1) by blast
    then show ?thesis
    proof cases
      case 1
      then have "fadd rnd32 c w = rnd32 v" by (simp add: w)
      then show ?thesis using v by blast
    next
      case 2
      then show ?thesis by (simp add: w)
    next
      case 3
      from rnd32_sign [OF 3(1)] show ?thesis
      proof (cases "rnd32 r" rule: nonneg_cases)
        case (1 q)
        then have "fadd rnd32 c w = rnd32 (q + v)" by (simp add: 3(2) w)
        moreover have "0 \<le> q + v" using 1 v by simp
        ultimately show ?thesis by blast
      next
        case 2
        then show ?thesis by (simp add: 3(2) w)
      qed
    qed
  qed
  moreover have "\<forall>w \<in> set ws. \<exists>v. w = Fin v \<and> 0 \<le> v" using Cons.prems(2) by simp
  ultimately show ?case
    unfolding foldl_Cons by (rule Cons.IH)
qed

lemma total_weight_float:
  "total_weight freq rpm evs = Fin 0 \<or> total_weight freq rpm evs = PInf
     \<or> (\<exists>r. 0 \<le> r \<and> total_weight freq rpm evs = rnd32 r)"
  unfolding total_weight_def
proof (rule sum_weights_float)
  show "Fin 0 = Fin 0 \<or> Fin 0 = PInf \<or> (\<exists>r. 0 \<le> r \<and> Fin 0 = rnd32 r)" by simp
  show "\<forall>w \<in> set (map (similarity freq rpm) (filter resolved evs)). \<exists>v. w = Fin v \<and> 0 \<le> v"
    using similarity_range by fastforce
qed


text \<open>
  For the total weight, being below 0.1 is the same test whether 0.1 is read as one
  tenth, as the \<open>double\<close> literal or as the \<open>float\<close> nearest to one tenth.
\<close>

lemma below_tenth_readings:
  assumes "c = Fin 0 \<or> c = PInf \<or> (\<exists>r. 0 \<le> r \<and> c = rnd32 r)"
  shows "fl_less c (rnd64 (1 / 10)) = fl_less c (Fin (1 / 10))"
    and "fl_less c (rnd32 (1 / 10)) = fl_less c (Fin (1 / 10))"
proof -
  have g: "(q < 3602879701896397 / 2 ^ 55) = (q < 1 / 10) \<and> (q < 13421773 / 2 ^ 27) = (q < 1 / 10)"
    if "rnd32 r = Fin q" for r q :: real
  proof -
    have "\<not> (1 / 10 \<le> q \<and> q < 13421773 / 2 ^ 27)"
      using that by (rule rnd32_not_near_tenth)
    moreover have "(1 :: real) / 10 < 3602879701896397 / 2 ^ 55" by simp
    moreover have "(3602879701896397 :: real) / 2 ^ 55 < 13421773 / 2 ^ 27" by simp
    ultimately show ?thesis by linarith
  qed
  consider "c = Fin 0" | "c = PInf" | r where "0 \<le> r" "c = rnd32 r"
    using assms by blast
  then have "fl_less c (rnd64 (1 / 10)) = fl_less c (Fin (1 / 10)) \<and>
             fl_less c (rnd32 (1 / 10)) = fl_less c (Fin (1 / 10))"
  proof cases
    case 1
    then show ?thesis by (simp add: double_0_1 float_0_1)
  next
    case 2
    then show ?thesis by (simp add: double_0_1 float_0_1)
  next
    case 3
    from rnd32_sign [OF 3(1)] show ?thesis
    proof (cases "rnd32 r" rule: nonneg_cases)
      case (1 q)
      then show ?thesis using g [of r q] by (simp add: 3(2) double_0_1 float_0_1)
    next
      case 2
      then show ?thesis by (simp add: 3(2) double_0_1 float_0_1)
    qed
  qed
  then show "fl_less c (rnd64 (1 / 10)) = fl_less c (Fin (1 / 10))"
    and "fl_less c (rnd32 (1 / 10)) = fl_less c (Fin (1 / 10))" by simp_all
qed

lemma total_weight_below:
  "fl_less (total_weight freq rpm evs) (rnd64 (1 / 10)) = fl_less (total_weight freq rpm evs) (Fin (1 / 10))"
  "fl_less (total_weight freq rpm evs) (rnd32 (1 / 10)) = fl_less (total_weight freq rpm evs) (Fin (1 / 10))"
  using below_tenth_readings [OF total_weight_float] by simp_all






lemma recordEvent_histogram_above:
  assumes "10000 \<le> frequency e"
  shows "chatterFreqHistogram (recordEvent e m) = chatterFreqHistogram m"
proof -
  have "0 \<le> frequency e / 100" using assms by simp
  then have c: "c_int_cast (frequency e / 100) = \<lfloor>frequency e / 100\<rfloor>"
    by (rule c_int_cast_nonneg)
  have "100 \<le> frequency e / 100" using assms by simp
  then have "100 \<le> \<lfloor>frequency e / 100\<rfloor>" by (simp add: le_floor_iff)
  then show ?thesis
    by (simp add: recordEvent_def Let_def c bump_bin_def)
qed

text \<open>
  Claim C8, as amended.  \<open>recordEvent\<close> appends the event and drops the oldest one
  whenever more than 50 would be held.  For a frequency inside the histogram's range (0 Hz
  up to, not including, 10 kHz) it adds one to the 16-bit counter of bin
  \<open>floor(frequency / 100)\<close>; for a frequency of 10 kHz or more it leaves the histogram as
  it was.  Hence the number of events held never exceeds 50, and after 51 calls on an
  empty memory exactly 50 events remain, the first one inserted being gone.
\<close>

theorem recordEvent_fifo:
  "events (recordEvent e m) =
     (if length (events m) < 50 then events m @ [e] else tl (events m @ [e])) \<and>
   (0 \<le> frequency e \<and> frequency e < 10000 \<longrightarrow>
      chatterFreqHistogram (recordEvent e m) =
        (chatterFreqHistogram m)[nat \<lfloor>frequency e / 100\<rfloor> :=
           chatterFreqHistogram m ! nat \<lfloor>frequency e / 100\<rfloor> + 1]) \<and>
   (10000 \<le> frequency e \<longrightarrow>
      chatterFreqHistogram (recordEvent e m) = chatterFreqHistogram m) \<and>
   (length (events m) \<le> 50 \<longrightarrow> length (events (recordAll m es)) \<le> 50) \<and>
   (events m = [] \<and> length es = 51 \<longrightarrow>
      events (recordAll m es) = tl es \<and> length (events (recordAll m es)) = 50)"
proof -
  have "events (recordAll m es) = tl es \<and> length (events (recordAll m es)) = 50"
    if "events m = []" "length es = 51"
    using that recordAll_events [of m es] by (simp add: drop_Suc)
  then show ?thesis
    using recordEvent_events recordEvent_histogram recordEvent_histogram_above
      recordAll_length by blast
qed

theorem recordEvent_fifo_witness:
  "events (recordAll empty_memory (map mk_event [0 ..< 51])) = map mk_event [1 ..< 51] \<and>
   length (events (recordAll empty_memory (map mk_event [0 ..< 51]))) = 50 \<and>
   chatterFreqHistogram (recordEvent (mk_event 50) empty_memory) = (replicate 100 0)[15 := 1]"
proof -
  have t: "tl (map mk_event [0 ..< 51]) = map mk_event [1 ..< 51]"
    by (simp add: map_tl [symmetric] del: map_tl)
  have f: "nat \<lfloor>frequency (mk_event 50) / 100\<rfloor> = 15"
    by (simp add: mk_event_def)
  have "events empty_memory = []"
    by (simp add: empty_memory_def)
  moreover have "0 \<le> frequency (mk_event 50) \<and> frequency (mk_event 50) < 10000"
    by (simp add: mk_event_def)
  ultimately show ?thesis
    using recordEvent_fifo [of "mk_event 50" empty_memory "map mk_event [0 ..< 51]"]
    unfolding f t by (simp add: empty_memory_def)
qed

text \<open>
  The claim as stated fails above the histogram's range: recording an event at 12 kHz
  appends it and increments no counter.
\<close>

theorem recordEvent_fifo_counterexample:
  "frequency high_event = 12000 \<and>
   events (recordEvent high_event empty_memory) = [high_event] \<and>
   chatterFreqHistogram (recordEvent high_event empty_memory) = chatterFreqHistogram empty_memory"
  by (simp add: recordEvent_def Let_def MAX_EVENTS_def bump_bin_def c_int_cast_def
        high_event_def empty_memory_def)

text \<open>
  Claim C7.  Saving and then loading round-trips the learning state, on the same object or
  on a fresh one reading the same store: the histogram comes back unchanged and the event
  list is the last ten events recorded (all of them when there are fewer), in their order
  of insertion; older events are not restored.
\<close>

theorem save_load_roundtrip:
  assumes "prefs m' = prefs (saveToFlash m)"
      and "length (chatterFreqHistogram m') = length (chatterFreqHistogram m)"
  shows "chatterFreqHistogram (loadFromFlash m') = chatterFreqHistogram m \<and>
         events (loadFromFlash m') = drop (length (events m) - 10) (events m)"
proof -
  let ?evs = "events m" and ?k = "min 10 (length (events m))"
  let ?p2 = "((prefs m)(''histogram'' \<mapsto> HistBlob (chatterFreqHistogram m)))
               (''eventCount'' \<mapsto> IntVal (int (length ?evs)))"
  have p: "prefs m' = foldl (save_event ?evs) ?p2 [0 ..< ?k]"
    using assms(1) by (simp add: saveToFlash_def Let_def)
  have nk: "\<forall>i<?k. evt_key i \<noteq> ''histogram'' \<and> evt_key i \<noteq> ''eventCount''"
    using evt_key_other by simp
  have h: "prefs m' ''histogram'' = Some (HistBlob (chatterFreqHistogram m))"
    unfolding p using nk by (subst save_loop_other) simp_all
  have c: "prefs m' ''eventCount'' = Some (IntVal (int (length ?evs)))"
    unfolding p using nk by (subst save_loop_other) simp_all
  have hist: "chatterFreqHistogram (loadFromFlash m') = chatterFreqHistogram m"
    using h assms(2) by (simp add: loadFromFlash_def Let_def get_histogram_def)
  have i: "nat (min 9 (int (length ?evs) - 1) + 1) = ?k"
    by simp
  have found: "\<forall>j. 0 \<le> j \<and> j \<le> min 9 (int (length ?evs) - 1) \<longrightarrow>
      prefs m' (evt_key (nat j)) = Some (EventBlob (?evs ! (length ?evs - 1 - nat j)))"
  proof (intro allI impI)
    fix j :: int
    assume "0 \<le> j \<and> j \<le> min 9 (int (length ?evs) - 1)"
    then have "nat j < ?k" by auto
    then show "prefs m' (evt_key (nat j)) = Some (EventBlob (?evs ! (length ?evs - 1 - nat j)))"
      unfolding p by (intro save_loop_evt) simp_all
  qed
  have "events (loadFromFlash m') = load_loop (prefs m') (min 9 (int (length ?evs) - 1)) []"
    using c by (simp add: loadFromFlash_def Let_def getInt_def)
  also have "\<dots> = map (\<lambda>j. ?evs ! (length ?evs - 1 - j)) (rev [0 ..< ?k])"
    using load_loop_found [OF found, of "[]"] unfolding i by simp
  also have "\<dots> = drop (length ?evs - ?k) ?evs"
    by (rule last_events_by_index) simp
  also have "length ?evs - ?k = length ?evs - 10"
    by simp
  finally show ?thesis using hist by simp
qed

theorem save_load_roundtrip_witness:
  "length (events memory12) = 12 \<and>
   events (loadFromFlash (restart (saveToFlash memory12))) = drop 2 (events memory12) \<and>
   chatterFreqHistogram (loadFromFlash (restart (saveToFlash memory12))) = replicate 100 0"
proof -
  have a: "prefs (restart (saveToFlash memory12)) = prefs (saveToFlash memory12)"
    by (simp add: restart_def)
  have b: "length (chatterFreqHistogram (restart (saveToFlash memory12)))
             = length (chatterFreqHistogram memory12)"
    by (simp add: restart_def memory12_def empty_memory_def)
  have c: "length (events memory12) - 10 = 2"
    by (simp add: memory12_def)
  show ?thesis
    using save_load_roundtrip [OF a b] unfolding c
    by (simp add: memory12_def empty_memory_def)
qed



section \<open>Properties of the state machine\<close>

lemma enter_chatter_fields:
  "currentState (enter_chatter now ts score f d) = CHATTER"
  "lastChatterTime (enter_chatter now ts score f d) = now"
  "memory (enter_chatter now ts score f d) =
     recordEvent \<lparr>frequency = f, spindleRPM = det_spindleRPM d, feedRate = det_feedRate d,
                  severity = score, feedReduction = 0, resolved = False, timestamp = ts\<rparr> (memory d)"
  "suggestedFeed (enter_chatter now ts score f d) =
     predictFeedReduction f (det_spindleRPM d) (memory (enter_chatter now ts score f d))"
  "det_spindleRPM (enter_chatter now ts score f d) = det_spindleRPM d"
  "det_feedRate (enter_chatter now ts score f d) = det_feedRate d"
  by (simp_all add: enter_chatter_def recordChatterEvent_def Let_def)

lemma enter_chatter_from_warning:
  "enter_chatter now ts score f (d\<lparr>currentState := WARNING\<rparr>) = enter_chatter now ts score f d"
  by (simp add: enter_chatter_def recordChatterEvent_def Let_def)

lemma word32_gt_5000: "((w :: 32 word) > 5000) = (unat w > 5000)"
  by (simp add: word_less_nat_alt)

lemma run_snoc: "run d (cs @ [c]) = cycle (run d cs) c"
  by (simp add: run_def)

lemma run_Cons: "run d (c # cs) = run (cycle d c) cs"
  by (simp add: run_def)

lemma run_Nil: "run d [] = d"
  by (simp add: run_def)

lemma run_monitoring_low:
  "currentState d = MONITORING \<Longrightarrow> \<forall>c\<in>set cs. c_score c \<le> 40 \<Longrightarrow> run d cs = d"
  by (induction cs) (simp_all add: run_Nil run_Cons cycle_def)

lemma run_warning_mid:
  "currentState d = WARNING \<Longrightarrow> \<forall>c\<in>set cs. 30 \<le> c_score c \<and> c_score c \<le> 70 \<Longrightarrow> run d cs = d"
  by (induction cs) (simp_all add: run_Nil run_Cons cycle_def)

lemma run_below_70:
  assumes "currentState d = MONITORING"
      and "sorted (map c_score cs)"
      and "\<forall>c\<in>set cs. c_score c \<le> 70"
  shows "run d cs = (if \<exists>c\<in>set cs. 40 < c_score c then d\<lparr>currentState := WARNING\<rparr> else d)"
  using assms
proof (induction cs)
  case Nil
  show ?case by (simp add: run_Nil)
next
  case (Cons c cs)
  show ?case
  proof (cases "c_score c \<le> 40")
    case True
    then have "cycle d c = d"
      using Cons.prems(1) by (simp add: cycle_def)
    then show ?thesis
      using Cons True by (simp add: run_Cons)
  next
    case False
    then have w: "cycle d c = d\<lparr>currentState := WARNING\<rparr>"
      using Cons.prems(1,3) by (simp add: cycle_def)
    have "\<forall>x\<in>set cs. 30 \<le> c_score x \<and> c_score x \<le> 70"
      using Cons.prems(2,3) False by auto
    then have "run (d\<lparr>currentState := WARNING\<rparr>) cs = d\<lparr>currentState := WARNING\<rparr>"
      by (intro run_warning_mid) simp_all
    then show ?thesis
      using False w by (simp add: run_Cons)
  qed
qed

text \<open>
  Smoothing moves the score by at most three tenths of the way to 100: from a smoothed
  score of at most 40 the next one is at most 58, from 90 a raw score of 100 gives 93.
\<close>

lemma smooth_90_100: "smooth 90 100 = 93"
  by (simp add: smooth_def)

lemma smooth_bound: "s \<le> 40 \<Longrightarrow> smooth s raw \<le> 58"
  by (simp add: smooth_def min_def)

text \<open>
  Claim C1, as amended.  For a detector in \<open>RECOVERING\<close>, an update whose smoothed score
  exceeds 60 moves the state back to \<open>CHATTER\<close> and sets the time of the last chatter entry
  to the current time; nothing else changes: the memory keeps the events it had (no event
  is recorded) and the suggested feed stays as it was.
\<close>

theorem recovering_retrigger:
  assumes "currentState d = RECOVERING" and "60 < score"
  shows "updateState now ts score f d = d\<lparr>currentState := CHATTER, lastChatterTime := now\<rparr>"
  using assms by simp

theorem recovering_retrigger_witness:
  "currentState (updateState 9000 9000 61 1500 recovering_detector) = CHATTER \<and>
   lastChatterTime (updateState 9000 9000 61 1500 recovering_detector) = 9000 \<and>
   memory (updateState 9000 9000 61 1500 recovering_detector) = memory recovering_detector \<and>
   suggestedFeed (updateState 9000 9000 61 1500 recovering_detector) = Fin 20"
proof -
  have "currentState recovering_detector = RECOVERING"
    by (simp add: recovering_detector_def)
  moreover have "(60 :: real) < 61" by simp
  ultimately have "updateState 9000 9000 61 1500 recovering_detector
      = recovering_detector\<lparr>currentState := CHATTER, lastChatterTime := 9000\<rparr>"
    by (rule recovering_retrigger)
  then show ?thesis
    by (simp add: recovering_detector_def)
qed

text \<open>
  The claim as stated fails: the re-trigger records no event.  The detector below holds
  one event; after a cycle with score 61 it is in \<open>CHATTER\<close> and still holds that one
  event, whereas the same cycle from \<open>MONITORING\<close> with a score above 70 appends one.
\<close>

theorem recovering_retrigger_counterexample:
  "currentState recovering_detector = RECOVERING \<and>
   currentState (updateState 9000 9000 61 1500 recovering_detector) = CHATTER \<and>
   events (memory (updateState 9000 9000 61 1500 recovering_detector))
     = events (memory recovering_detector) \<and>
   getEventCount (memory (updateState 9000 9000 61 1500 recovering_detector)) = 1 \<and>
   getEventCount (memory (updateState 9000 9000 71 1500 monitoring_detector)) = 2"
  by (simp add: recovering_detector_def monitoring_detector_def empty_memory_def getEventCount_def
        enter_chatter_fields recordEvent_events)

text \<open>
  Claim C2, as amended.  For a detector in \<open>RECOVERING\<close>, an update moves the state to
  \<open>MONITORING\<close> if and only if the smoothed score is below 25 and more than 5000 ms have
  elapsed since the last entry into \<open>CHATTER\<close>, the elapsed time being the difference of
  the two 32-bit millisecond readings (with a score below 25: at 5001 ms, not at 5000 ms
  and not at 4999 ms); on that transition the suggested feed is reset to 100.
\<close>

theorem recovering_to_monitoring:
  assumes "currentState d = RECOVERING"
  shows "(currentState (updateState now ts score f d) = MONITORING \<longleftrightarrow>
            score < 25 \<and> 5000 < unat (now - lastChatterTime d)) \<and>
         (currentState (updateState now ts score f d) = MONITORING \<longrightarrow>
            suggestedFeed (updateState now ts score f d) = Fin 100)"
  using assms by (simp add: word32_gt_5000)

theorem recovering_to_monitoring_witness:
  "unat (6001 - lastChatterTime recovering_detector) = 5001 \<and>
   currentState (updateState 6001 6001 10 1500 recovering_detector) = MONITORING \<and>
   suggestedFeed (updateState 6001 6001 10 1500 recovering_detector) = Fin 100 \<and>
   unat (5999 - lastChatterTime recovering_detector) = 4999 \<and>
   currentState (updateState 5999 5999 10 1500 recovering_detector) \<noteq> MONITORING"
proof -
  have r: "currentState recovering_detector = RECOVERING"
    by (simp add: recovering_detector_def)
  have a: "unat (6001 - lastChatterTime recovering_detector) = 5001"
    and b: "unat (5999 - lastChatterTime recovering_detector) = 4999"
    by (simp_all add: recovering_detector_def)
  show ?thesis
    using recovering_to_monitoring [OF r, of 6001 6001 10 1500]
          recovering_to_monitoring [OF r, of 5999 5999 10 1500]
    unfolding a b by simp
qed

text \<open>
  The claim as stated fails at exactly 5000 ms: the score is below 25, 5000 ms have
  elapsed, and the detector stays in \<open>RECOVERING\<close>.
\<close>

theorem recovering_to_monitoring_counterexample:
  "currentState recovering_detector = RECOVERING \<and> (10 :: real) < 25 \<and>
   unat (6000 - lastChatterTime recovering_detector) = 5000 \<and>
   currentState (updateState 6000 6000 10 1500 recovering_detector) = RECOVERING"
  by (simp add: recovering_detector_def)

text \<open>
  Claim C3, as amended.  For a detector in \<open>MONITORING\<close> and a monotonically rising
  sequence of smoothed scores: as long as no score has exceeded 40 the detector is
  unchanged; on the first update whose score exceeds 40 it enters \<open>WARNING\<close> provided
  that score is at most 70 (a score above 70 takes it from \<open>MONITORING\<close> straight to
  \<open>CHATTER\<close>); as long as no score has exceeded 70 it is not in \<open>CHATTER\<close> and neither
  the memory nor the suggested feed has changed; on the first update whose score exceeds
  70 it enters \<open>CHATTER\<close>, records the event of that cycle and sets the suggested feed
  to \<open>predictFeedReduction\<close> at the cycle's frequency and the spindle speed.
\<close>

theorem rising_score_thresholds:
  assumes "currentState d = MONITORING"
      and "sorted (map c_score (pre @ [c]))"
  shows "((\<forall>x\<in>set pre. c_score x \<le> 40) \<longrightarrow> run d pre = d) \<and>
         ((\<forall>x\<in>set pre. c_score x \<le> 40) \<and> 40 < c_score c \<and> c_score c \<le> 70 \<longrightarrow>
            run d (pre @ [c]) = d\<lparr>currentState := WARNING\<rparr>) \<and>
         ((\<forall>x\<in>set pre. c_score x \<le> 70) \<longrightarrow>
            currentState (run d pre) \<noteq> CHATTER \<and> memory (run d pre) = memory d \<and>
            suggestedFeed (run d pre) = suggestedFeed d) \<and>
         ((\<forall>x\<in>set pre. c_score x \<le> 70) \<and> 70 < c_score c \<longrightarrow>
            currentState (run d (pre @ [c])) = CHATTER \<and>
            lastChatterTime (run d (pre @ [c])) = c_now c \<and>
            memory (run d (pre @ [c])) = recordEvent (chatter_event d c) (memory d) \<and>
            suggestedFeed (run d (pre @ [c])) =
              predictFeedReduction (c_freq c) (det_spindleRPM d) (memory (run d (pre @ [c]))))"
proof -
  have sorted_pre: "sorted (map c_score pre)"
    using assms(2) by (simp add: sorted_append)
  have low: "run d pre = d" if "\<forall>x\<in>set pre. c_score x \<le> 40"
    using assms(1) that by (rule run_monitoring_low)
  have warn: "run d (pre @ [c]) = d\<lparr>currentState := WARNING\<rparr>"
    if "(\<forall>x\<in>set pre. c_score x \<le> 40) \<and> 40 < c_score c \<and> c_score c \<le> 70"
    using that low assms(1) by (simp add: run_snoc cycle_def)
  have mid: "run d pre = d \<or> run d pre = d\<lparr>currentState := WARNING\<rparr>"
    if "\<forall>x\<in>set pre. c_score x \<le> 70"
    using run_below_70 [OF assms(1) sorted_pre that] by (simp split: if_splits)
  have before: "currentState (run d pre) \<noteq> CHATTER \<and> memory (run d pre) = memory d \<and>
                suggestedFeed (run d pre) = suggestedFeed d"
    if "\<forall>x\<in>set pre. c_score x \<le> 70"
    using mid [OF that] assms(1) by auto
  have enter: "run d (pre @ [c]) = enter_chatter (c_now c) (c_ts c) (c_score c) (c_freq c) d"
    if "(\<forall>x\<in>set pre. c_score x \<le> 70) \<and> 70 < c_score c"
  proof -
    from that mid have "run d pre = d \<or> run d pre = d\<lparr>currentState := WARNING\<rparr>" by simp
    then show ?thesis
    proof
      assume "run d pre = d"
      then show ?thesis using that assms(1) by (simp add: run_snoc cycle_def)
    next
      assume "run d pre = d\<lparr>currentState := WARNING\<rparr>"
      then show ?thesis
        using that by (simp add: run_snoc cycle_def enter_chatter_from_warning)
    qed
  qed
  have chatter: "currentState (run d (pre @ [c])) = CHATTER \<and>
            lastChatterTime (run d (pre @ [c])) = c_now c \<and>
            memory (run d (pre @ [c])) = recordEvent (chatter_event d c) (memory d) \<and>
            suggestedFeed (run d (pre @ [c])) =
              predictFeedReduction (c_freq c) (det_spindleRPM d) (memory (run d (pre @ [c])))"
    if "(\<forall>x\<in>set pre. c_score x \<le> 70) \<and> 70 < c_score c"
    unfolding enter [OF that] by (simp add: enter_chatter_fields chatter_event_def)
  show ?thesis
    using low warn before chatter by blast
qed

theorem rising_score_thresholds_witness:
  "run monitoring_detector [at_score 30, at_score 51] = monitoring_detector\<lparr>currentState := WARNING\<rparr> \<and>
   currentState (run monitoring_detector [at_score 30, at_score 51, at_score 66, at_score 76]) = CHATTER \<and>
   memory (run monitoring_detector [at_score 30, at_score 51, at_score 66, at_score 76])
     = recordEvent (chatter_event monitoring_detector (at_score 76)) (memory monitoring_detector)"
proof -
  have m: "currentState monitoring_detector = MONITORING"
    by (simp add: monitoring_detector_def)
  have s1: "sorted (map c_score ([at_score 30] @ [at_score 51]))"
    and s2: "sorted (map c_score ([at_score 30, at_score 51, at_score 66] @ [at_score 76]))"
    by (simp_all add: at_score_def)
  show ?thesis
    using rising_score_thresholds [OF m s1] rising_score_thresholds [OF m s2]
    by (simp add: at_score_def)
qed

text \<open>
  The claim as stated fails when the first score above 40 is also above 70.  A detector
  re-calibrated while its smoothed score was 90 keeps that score (neither
  \<open>startCalibration\<close> nor the calibrating branch of \<open>update\<close> touches it); its first scored
  cycle, with a raw score of 100, has the smoothed score 93 and takes it from
  \<open>MONITORING\<close> to \<open>CHATTER\<close>: it never enters \<open>WARNING\<close>.
\<close>

theorem rising_score_thresholds_counterexample:
  "currentState monitoring_detector = MONITORING \<and>
   sorted (map c_score [at_score (smooth 90 100)]) \<and>
   40 < c_score (at_score (smooth 90 100)) \<and>
   currentState (run monitoring_detector [at_score (smooth 90 100)]) = CHATTER \<and>
   currentState (run monitoring_detector [at_score (smooth 90 100)]) \<noteq> WARNING"
  by (simp add: monitoring_detector_def at_score_def smooth_90_100 run_Cons run_Nil cycle_def
        enter_chatter_fields)

section \<open>Properties of the DSP engine\<close>



lemma analyze_features:
  "harmonicStrength (analyze m sz bw rd) = val (fst (HarmonicDetector_analyze m sz bw))"
  "dominantFreq (analyze m sz bw rd) = snd (HarmonicDetector_analyze m sz bw)"
  "spectralNarrowness (analyze m sz bw rd) = rd_narrowScore rd"
  "freqStability (analyze m sz bw rd) = rd_frequencyStability rd"
  "stabilityLobeMatch (analyze m sz bw rd) = rd_scoreFrequency rd (snd (HarmonicDetector_analyze m sz bw))"
  "stallGuardScore (analyze m sz bw rd) = rd_combinedScore rd"
  by (simp_all add: analyze_def Let_def)


text \<open>
  While every bin read is below \<open>100 - 2^-18\<close>, the \<open>float\<close> \<open>maxMag\<close> stays below 100.
\<close>

lemma peak_fold_below:
  "fl_less (fst acc) (Fin 100) \<Longrightarrow> \<forall>i\<in>set is. mag_at m i < 100 - 1 / 2 ^ 18 \<Longrightarrow>
   fl_less (fst (foldl (peak_step m) acc is)) (Fin 100)"
  by (induction "is" arbitrary: acc) (simp_all add: peak_step_def rnd32_below_100)

lemma find_peak_below:
  assumes "\<forall>i. lo \<le> i \<and> i < hi \<longrightarrow> mag_at m i < 100 - 1 / 2 ^ 18"
  shows "fl_less (fst (find_peak m lo hi)) (Fin 100)"
  unfolding find_peak_def using assms by (intro peak_fold_below) simp_all

lemma bins_125_8:
  "float_to_int (fdiv rnd32 (Fin 500) (Fin (125 / 8))) = 32"
  "min (c_div 1024 2) (float_to_int (fdiv rnd32 (Fin 8000) (Fin (125 / 8)))) = 512"
  by (simp_all add: c_int_cast_def c_div_def)

lemma faint_harmonics_at:
  "0 \<le> i \<Longrightarrow> i < 512 \<Longrightarrow> mag_at faint_harmonics i < 100 - 1 / 2 ^ 18"
  by (simp add: mag_at_def faint_harmonics_def)

lemma faint_pattern:
  "mag_at faint_harmonics 40 = 90 \<and> mag_at faint_harmonics 80 = 90 \<and>
   mag_at faint_harmonics 120 = 90 \<and> mag_at faint_harmonics 160 = 90"
  by (simp add: mag_at_def faint_harmonics_def)

lemma faint_bins:
  "\<forall>i. float_to_int (fdiv rnd32 (Fin 500) (Fin (125 / 8))) \<le> i \<and>
       i < min (c_div 1024 2) (float_to_int (fdiv rnd32 (Fin 8000) (Fin (125 / 8)))) \<longrightarrow>
       mag_at faint_harmonics i < 100 - 1 / 2 ^ 18"
  unfolding bins_125_8 using faint_harmonics_at by simp


text \<open>A bin that does not exceed \<open>maxMag\<close> leaves the peak as it is.\<close>

lemma peak_fold_skip:
  "\<forall>i\<in>set is. \<not> fl_less (fst acc) (Fin (mag_at m i)) \<Longrightarrow> foldl (peak_step m) acc is = acc"
  by (induction "is" arbitrary: acc) (simp_all add: peak_step_def)

lemma peak_fold_skip_range:
  assumes "\<forall>i. lo \<le> i \<and> i \<le> hi \<longrightarrow> \<not> fl_less (fst acc) (Fin (mag_at m i))"
  shows "foldl (peak_step m) acc [lo .. hi] = acc"
  using assms by (intro peak_fold_skip) simp

lemma local_max_zero:
  assumes "\<forall>i. lo \<le> i \<and> i \<le> hi \<longrightarrow> mag_at m i \<le> 0"
  shows "foldl (\<lambda>localMax j. if fl_less localMax (Fin (mag_at m j)) then rnd32 (mag_at m j) else localMax)
           (Fin 0) [lo .. hi] = Fin 0"
proof -
  have "\<forall>i\<in>set is. mag_at m i \<le> 0 \<Longrightarrow>
        foldl (\<lambda>localMax j. if fl_less localMax (Fin (mag_at m j)) then rnd32 (mag_at m j) else localMax)
           (Fin 0) is = Fin 0" for "is"
    by (induction "is") simp_all
  then show ?thesis using assms by simp
qed

lemma near_floor_at:
  "0 \<le> i \<Longrightarrow> i < 1024 \<Longrightarrow>
   mag_at near_floor i = (if i = 64 then 100 - 1 / 2 ^ 30 else if i = 128 then 50 else 0)"
  by (auto simp: mag_at_def near_floor_def)

lemma near_floor_peak: "find_peak near_floor 32 512 = (Fin 100, 64)"
proof -
  have s: "[32 .. 512 - 1 :: int] = [32 .. 64 - 1] @ 64 # [64 + 1 .. 512 - 1]"
    by (rule upto_split3) simp_all
  have a: "foldl (peak_step near_floor) (Fin 0, 0) [32 .. 64 - 1] = (Fin 0, 0)"
    by (rule peak_fold_skip_range) (simp add: near_floor_at)
  have m: "mag_at near_floor 64 = 100 - 1 / 2 ^ 30"
    using near_floor_at [of 64] by simp
  have b: "peak_step near_floor (Fin 0, 0) 64 = (Fin 100, 64)"
    unfolding peak_step_def m rnd32_near_100 by simp
  have c: "foldl (peak_step near_floor) (Fin 100, 64) [64 + 1 .. 512 - 1] = (Fin 100, 64)"
    by (rule peak_fold_skip_range) (simp add: near_floor_at)
  show ?thesis
    unfolding find_peak_def s foldl_append foldl_Cons a b c ..
qed

text \<open>The product \<open>maxMag * 0.2\<close> for \<open>maxMag = 100\<close>, in binary64.\<close>

lemma fifth_of_100: "fmul rnd64 (Fin 100) (rnd64 (2 / 10)) = Fin 20"
proof -
  have "round_even ((100 * (3602879701896397 / 2 ^ 54)) / 2 powi (4 - (int 53 - 1))) = 5629499534213120"
    by (rule round_even_near) simp_all
  then have "rnd 53 (- 1022) 1023 (100 * (3602879701896397 / 2 ^ 54))
               = Fin (of_int 5629499534213120 * 2 powi (4 - (int 53 - 1)))"
    by (intro rnd_eval) simp_all
  then have "rnd64 (100 * (3602879701896397 / 2 ^ 54)) = Fin 20" by (simp add: rnd64_def)
  then show ?thesis unfolding double_0_2 by (simp only: fmul.simps)
qed

lemma near_floor_local:
  "local_max near_floor 1024 128 = Fin 50"
  "local_max near_floor 1024 192 = Fin 0"
  "local_max near_floor 1024 256 = Fin 0"
proof -
  have r: "c_div 1024 2 = 512" by (simp add: c_div_def)
  show "local_max near_floor 1024 128 = Fin 50"
    unfolding local_max_def r by (simp add: near_floor_at)
  show "local_max near_floor 1024 192 = Fin 0"
    unfolding local_max_def r by (intro local_max_zero) (simp add: near_floor_at)
  show "local_max near_floor 1024 256 = Fin 0"
    unfolding local_max_def r by (intro local_max_zero) (simp add: near_floor_at)
qed

lemma near_floor_loop: "harmonic_loop near_floor 1024 64 (Fin 100) [2, 3, 4] (Fin 0) = Fin (1 / 2)"
proof -
  have r: "c_div 1024 2 = 512" by (simp add: c_div_def)
  have h: "(64 :: int) * 2 = 128" "(64 :: int) * 3 = 192" "(64 :: int) * 4 = 256" by simp_all
  show ?thesis
    unfolding harmonic_loop.simps Let_def r h near_floor_local fifth_of_100
    by (simp add: rnd32_half)
qed

lemma near_floor_analyze: "HarmonicDetector_analyze near_floor 1024 (125 / 8) = (Fin (1 / 4), Fin 1000)"
  unfolding HarmonicDetector_analyze_def Let_def bins_125_8 near_floor_peak fst_conv snd_conv
    near_floor_loop
  by (simp add: fmin_def rnd32_half)

text \<open>The peak is never NaN; the local maximum and the harmonic score are not negative.\<close>

lemma peak_fold_not_NaN:
  "fst acc \<noteq> NaN \<Longrightarrow> fst (foldl (peak_step m) acc is) \<noteq> NaN"
  by (induction "is" arbitrary: acc) (simp_all add: peak_step_def rnd32_def rnd_not_NaN)

lemma local_max_sign:
  "local_max m sz hb \<noteq> NaN \<and> \<not> fl_less (local_max m sz hb) (Fin 0)"
proof -
  have "c \<noteq> NaN \<and> \<not> fl_less c (Fin 0) \<Longrightarrow>
        foldl (\<lambda>localMax j. if fl_less localMax (Fin (mag_at m j)) then rnd32 (mag_at m j) else localMax)
          c is \<noteq> NaN \<and>
        \<not> fl_less (foldl (\<lambda>localMax j. if fl_less localMax (Fin (mag_at m j)) then rnd32 (mag_at m j)
                                        else localMax) c is) (Fin 0)" for c "is"
  proof (induction "is" arbitrary: c)
    case Nil
    then show ?case by simp
  next
    case (Cons j js)
    have "(if fl_less c (Fin (mag_at m j)) then rnd32 (mag_at m j) else c) \<noteq> NaN \<and>
          \<not> fl_less (if fl_less c (Fin (mag_at m j)) then rnd32 (mag_at m j) else c) (Fin 0)"
    proof (cases "fl_less c (Fin (mag_at m j))")
      case True
      from Cons.prems have "0 \<le> mag_at m j"
      proof (cases c rule: nonneg_cases)
        case (1 q)
        then show ?thesis using True by simp
      next
        case 2
        then show ?thesis using True by simp
      qed
      then show ?thesis using True rnd32_sign by simp
    next
      case False
      then show ?thesis using Cons.prems by simp
    qed
    then show ?case unfolding foldl_Cons by (rule Cons.IH)
  qed
  then show ?thesis unfolding local_max_def by simp
qed

lemma harmonic_quotient_sign:
  assumes l: "l \<noteq> NaN \<and> \<not> fl_less l (Fin 0)"
      and m: "mx \<noteq> NaN" "\<not> fl_less mx (Fin 100)"
      and c: "fl_less (fmul rnd64 mx (rnd64 (2 / 10))) l"
  shows "fdiv rnd32 l mx \<noteq> NaN \<and> \<not> fl_less (fdiv rnd32 l mx) (Fin 0)"
proof (cases mx)
  case (Fin q)
  then have q: "100 \<le> q" using m(2) by simp
  from l show ?thesis
  proof (cases l rule: nonneg_cases)
    case (1 a)
    then have "0 \<le> a / q" using q by simp
    then show ?thesis using rnd32_sign [of "a / q"] 1 Fin q by simp
  next
    case 2
    then show ?thesis using Fin q by simp
  qed
next
  case PInf
  from c have False unfolding PInf double_0_2 by (cases l) simp_all
  then show ?thesis ..
next
  case NInf
  then show ?thesis using m(2) by simp
next
  case NaN
  then show ?thesis using m(1) by simp
qed

lemma harmonic_loop_sign:
  assumes "mx \<noteq> NaN" and "\<not> fl_less mx (Fin 100)"
  shows "acc \<noteq> NaN \<and> \<not> fl_less acc (Fin 0) \<Longrightarrow>
         harmonic_loop m sz mb mx hs acc \<noteq> NaN \<and> \<not> fl_less (harmonic_loop m sz mb mx hs acc) (Fin 0)"
proof (induction hs arbitrary: acc)
  case Nil
  then show ?case by simp
next
  case (Cons h hs)
  show ?case
  proof (cases "c_div sz 2 \<le> mb * h")
    case True
    then show ?thesis using Cons.prems by (simp add: Let_def)
  next
    case False
    let ?l = "local_max m sz (mb * h)"
    let ?acc = "if fl_less (fmul rnd64 mx (rnd64 (2 / 10))) ?l
                then fadd rnd32 acc (fdiv rnd32 ?l mx) else acc"
    have "?acc \<noteq> NaN \<and> \<not> fl_less ?acc (Fin 0)"
    proof (cases "fl_less (fmul rnd64 mx (rnd64 (2 / 10))) ?l")
      case True
      have "fdiv rnd32 ?l mx \<noteq> NaN \<and> \<not> fl_less (fdiv rnd32 ?l mx) (Fin 0)"
        using local_max_sign assms True by (rule harmonic_quotient_sign)
      with Cons.prems have "fadd rnd32 acc (fdiv rnd32 ?l mx) \<noteq> NaN \<and>
            \<not> fl_less (fadd rnd32 acc (fdiv rnd32 ?l mx)) (Fin 0)"
        by (rule fadd_sign)
      then show ?thesis using True by simp
    next
      case False
      then show ?thesis using Cons.prems by simp
    qed
    then have "harmonic_loop m sz mb mx hs ?acc \<noteq> NaN \<and>
               \<not> fl_less (harmonic_loop m sz mb mx hs ?acc) (Fin 0)"
      by (rule Cons.IH)
    then show ?thesis using False by (simp add: Let_def)
  qed
qed

lemma fmin_one_range:
  assumes "b \<noteq> NaN \<and> \<not> fl_less b (Fin 0)"
  shows "\<exists>v. fmin (Fin 1) (fdiv rnd32 b (Fin 2)) = Fin v \<and> 0 \<le> v \<and> v \<le> 1"
  using assms
proof (cases b rule: nonneg_cases)
  case (1 a)
  then have "0 \<le> a / 2" by simp
  from rnd32_sign [OF this] show ?thesis
  proof (cases "rnd32 (a / 2)" rule: nonneg_cases)
    case (1 v)
    then show ?thesis using \<open>b = Fin a\<close> by (simp add: fmin_def)
  next
    case 2
    then show ?thesis using \<open>b = Fin a\<close> by (simp add: fmin_def)
  qed
next
  case 2
  then show ?thesis by (simp add: fmin_def)
qed

text \<open>The harmonic strength is a finite value between 0 and 1.\<close>

lemma harmonic_strength_range:
  "\<exists>v. fst (HarmonicDetector_analyze m sz bw) = Fin v \<and> 0 \<le> v \<and> v \<le> 1"
proof -
  let ?pk = "find_peak m (float_to_int (fdiv rnd32 (Fin 500) (Fin bw)))
               (min (c_div sz 2) (float_to_int (fdiv rnd32 (Fin 8000) (Fin bw))))"
  show ?thesis
  proof (cases "fl_less (fst ?pk) (Fin 100)")
    case True
    then show ?thesis by (simp add: HarmonicDetector_analyze_def Let_def)
  next
    case False
    have n: "fst ?pk \<noteq> NaN"
      unfolding find_peak_def by (rule peak_fold_not_NaN) simp
    have "harmonic_loop m sz (snd ?pk) (fst ?pk) [2, 3, 4] (Fin 0) \<noteq> NaN \<and>
          \<not> fl_less (harmonic_loop m sz (snd ?pk) (fst ?pk) [2, 3, 4] (Fin 0)) (Fin 0)"
      using n False by (rule harmonic_loop_sign) simp
    then have "\<exists>v. fmin (Fin 1) (fdiv rnd32 (harmonic_loop m sz (snd ?pk) (fst ?pk) [2, 3, 4] (Fin 0))
                      (Fin 2)) = Fin v \<and> 0 \<le> v \<and> v \<le> 1"
      by (rule fmin_one_range)
    then show ?thesis
      using False by (simp add: HarmonicDetector_analyze_def Let_def)
  qed
qed



text \<open>
  Claim C10.  The peak is held in a \<open>float\<close> and compared with 100 after the rounding, so
  the floor is on the rounded magnitudes.  When every bin that the detector searches for
  the fundamental (from 500 Hz up to 8000 Hz within the first half of the spectrum: the
  indices from \<open>(int)(500/binWidth)\<close> up to, not including,
  \<open>min(size/2, (int)(8000/binWidth))\<close>, which are the bins 32 to 511 at the firmware's bin
  width of 15.625 Hz) is below \<open>100 - 2^-18\<close>, \<open>HarmonicDetector::analyze\<close> returns the
  harmonic strength 0 and the fundamental 0, and the \<open>dominantFreq\<close> of the result of
  \<open>AdvancedDSP::analyze\<close> is 0, whatever pattern the fainter bins form.
\<close>

theorem harmonic_floor:
  assumes "0 < binWidth"
      and "c_div sz 2 \<le> int (length magnitudes)"
      and "\<forall>i. float_to_int (fdiv rnd32 (Fin 500) (Fin binWidth)) \<le> i \<and>
               i < min (c_div sz 2) (float_to_int (fdiv rnd32 (Fin 8000) (Fin binWidth))) \<longrightarrow>
               mag_at magnitudes i < 100 - 1 / 2 ^ 18"
  shows "HarmonicDetector_analyze magnitudes sz binWidth = (Fin 0, Fin 0) \<and>
         harmonicStrength (analyze magnitudes sz binWidth rd) = 0 \<and>
         dominantFreq (analyze magnitudes sz binWidth rd) = Fin 0"
proof -
  from assms(3) have "fl_less (fst (find_peak magnitudes
                    (float_to_int (fdiv rnd32 (Fin 500) (Fin binWidth)))
                    (min (c_div sz 2) (float_to_int (fdiv rnd32 (Fin 8000) (Fin binWidth)))))) (Fin 100)"
    by (rule find_peak_below)
  then have "HarmonicDetector_analyze magnitudes sz binWidth = (Fin 0, Fin 0)"
    unfolding HarmonicDetector_analyze_def Let_def by (simp only: if_True)
  then show ?thesis
    by (simp add: analyze_features)
qed

theorem harmonic_floor_witness:
  "mag_at faint_harmonics 40 = 90 \<and> mag_at faint_harmonics 80 = 90 \<and>
   mag_at faint_harmonics 120 = 90 \<and> mag_at faint_harmonics 160 = 90 \<and>
   HarmonicDetector_analyze faint_harmonics 1024 (125 / 8) = (Fin 0, Fin 0) \<and>
   harmonicStrength (analyze faint_harmonics 1024 (125 / 8) quiet_readings) = 0 \<and>
   dominantFreq (analyze faint_harmonics 1024 (125 / 8) quiet_readings) = Fin 0"
proof -
  have a: "(0 :: real) < 125 / 8" by simp
  have b: "c_div 1024 2 \<le> int (length faint_harmonics)"
    by (simp add: c_div_def faint_harmonics_def)
  show ?thesis
    using harmonic_floor [OF a b faint_bins, of quiet_readings] faint_pattern by simp
qed

text \<open>
  The claim as stated fails between \<open>100 - 2^-18\<close> and 100.  In the spectrum \<open>near_floor\<close>
  every bin is below 100 in absolute value; the bin at 1000 Hz holds \<open>100 - 2^-30\<close>, which
  the assignment to \<open>maxMag\<close> rounds to 100, and the detector reports the fundamental
  1000 Hz with the harmonic strength 0.25.
\<close>

theorem harmonic_floor_counterexample:
  "list_all (\<lambda>v. \<bar>v\<bar> < 100) near_floor \<and>
   HarmonicDetector_analyze near_floor 1024 (125 / 8) = (Fin (1 / 4), Fin 1000) \<and>
   harmonicStrength (analyze near_floor 1024 (125 / 8) quiet_readings) = 1 / 4 \<and>
   dominantFreq (analyze near_floor 1024 (125 / 8) quiet_readings) = Fin 1000"
proof -
  have "list_all (\<lambda>v. \<bar>v\<bar> < 100) near_floor"
    by (simp add: near_floor_def list_all_iff)
  then show ?thesis
    by (simp add: analyze_features near_floor_analyze)
qed

end
